theory Spec2Isabelle
  imports Main "HOL-Library.Word" "HOL-Library.Multiset" "HOL-Library.Sublist"
begin

section \<open>The division builder of build.go\<close>

text \<open>
  build.go reads four flat lists of records (provinces, cities, areas, streets), hangs them
  into a forest of \<open>Area\<close> nodes by the leading digits of their codes, numbers the forest as a
  nested set, and writes one INSERT statement per node.

  Go strings are byte sequences: \<open>string\<close>. \<open>int32\<close> is a 32-bit word whose \<open>+\<close> wraps
  around and whose order is the signed one (\<open>sint\<close>). Every \<open>&Area{...}\<close> is a fresh node that
  is reachable from its parent's \<open>SubAreas\<close> only, so the forest is a value of a tree type and a
  write through a node pointer is an update at the node's position.
\<close>

subsection \<open>Data\<close>

type_synonym int32 = "32 word"

datatype Area = Area
  (Code: string) (Name: string) (ParentCode: string)
  (Left: int32) (Right: int32) (SubAreas: "Area list")

record flatNode =
  flat_Code :: string
  flat_Name :: string
  flat_ParentCode :: string

text \<open>
  What stops the program: the two run-time panics of Go that the builder can raise (a slice
  expression \<open>s[:n]\<close> beyond the capacity, an index beyond the length; they carry the numbers
  of Go's message and nothing else), and the two \<open>log.Panic\<close> calls of the emitter
  (\<open>os.Create\<close> failed; \<open>f.Write\<close> failed, reported with the area being written).
\<close>

datatype panic =
  SliceBounds nat nat
| IndexRange nat nat
| CreateError
| WriteError Area

subsection \<open>Code resolver: getProvince, getCity, getArea\<close>

text \<open>
  \<open>[]byte(code)[:n]\<close> is a slice expression on a slice, whose upper bound is the capacity of
  the converted slice, not its length; the language leaves that capacity to the implementation
  ("may be larger than the slice length"). The bytes that lie behind the length of
  \<open>[]byte(code)\<close> are therefore a parameter \<open>spare\<close> of the resolver: the converted slice has
  length \<open>length code\<close> and capacity \<open>length code + length (spare code)\<close>. With
  \<open>spare = (\<lambda>_. [])\<close> the capacity is the length. For a code that is long enough the parameter
  plays no role.
\<close>

definition slice_to :: "string \<Rightarrow> string \<Rightarrow> nat \<Rightarrow> panic + string" where
  "slice_to b behind n =
     (if n \<le> length b + length behind then Inr (take n (b @ behind))
      else Inl (SliceBounds n (length b + length behind)))"

text \<open>\<open>copy(dst, src)\<close> overwrites the first \<open>min (len dst) (len src)\<close> bytes of \<open>dst\<close>.\<close>

definition copy_bytes :: "string \<Rightarrow> string \<Rightarrow> string" where
  "copy_bytes dst src =
     (let n = min (length dst) (length src) in take n src @ drop n dst)"

definition getProvince :: "(string \<Rightarrow> string) \<Rightarrow> string \<Rightarrow> panic + string" where
  "getProvince spare code =
     (let p = ''000000'' in
      case slice_to code (spare code) 2 of
        Inl e \<Rightarrow> Inl e
      | Inr src \<Rightarrow> Inr (copy_bytes (take 2 p) src @ drop 2 p))"

definition getCity :: "(string \<Rightarrow> string) \<Rightarrow> string \<Rightarrow> panic + string" where
  "getCity spare code =
     (let c = ''000000'' in
      case slice_to code (spare code) 4 of
        Inl e \<Rightarrow> Inl e
      | Inr src \<Rightarrow> Inr (copy_bytes (take 4 c) src @ drop 4 c))"

definition getArea :: "(string \<Rightarrow> string) \<Rightarrow> string \<Rightarrow> panic + string" where
  "getArea spare code =
     (let c = ''000000'' in
      case slice_to code (spare code) 6 of
        Inl e \<Rightarrow> Inl e
      | Inr src \<Rightarrow> Inr (copy_bytes c src))"

subsection \<open>Tree builder: buildTrees\<close>

text \<open>
  \<open>m[k]\<close> on a Go map yields the zero value, here position 0, for a key that is not there.
  \<open>xs[i]\<close> panics when \<open>i\<close> is not below the length.
\<close>

definition lookup :: "(string \<rightharpoonup> nat) \<Rightarrow> string \<Rightarrow> nat" where
  "lookup m k = (case m k of None \<Rightarrow> 0 | Some i \<Rightarrow> i)"

definition at :: "'a list \<Rightarrow> nat \<Rightarrow> panic + 'a" where
  "at xs i = (if i < length xs then Inr (xs ! i) else Inl (IndexRange i (length xs)))"

text \<open>\<open>&Area{Code: c, Name: n, ParentCode: pc}\<close>: keys zero, no children.\<close>

definition newArea :: "string \<Rightarrow> string \<Rightarrow> string \<Rightarrow> Area" where
  "newArea c n pc = Area c n pc 0 0 []"

text \<open>\<open>p.SubAreas = append(p.SubAreas, n)\<close> and a write to one child of \<open>p\<close>.\<close>

definition appendSub :: "Area \<Rightarrow> Area \<Rightarrow> Area" where
  "appendSub p n = Area (Code p) (Name p) (ParentCode p) (Left p) (Right p) (SubAreas p @ [n])"

definition setSubs :: "Area \<Rightarrow> Area list \<Rightarrow> Area" where
  "setSubs p subs = Area (Code p) (Name p) (ParentCode p) (Left p) (Right p) subs"

text \<open>A \<open>for _, x := range xs\<close> loop whose body may panic.\<close>

fun loop :: "('s \<Rightarrow> 'a \<Rightarrow> panic + 's) \<Rightarrow> 's \<Rightarrow> 'a list \<Rightarrow> panic + 's" where
  "loop body s [] = Inr s"
| "loop body s (x # xs) = (case body s x of Inl e \<Rightarrow> Inl e | Inr s' \<Rightarrow> loop body s' xs)"

text \<open>The province loop; \<open>i\<close> is the loop index.\<close>

fun provinceLoop ::
  "nat \<Rightarrow> flatNode list \<Rightarrow> Area list \<times> (string \<rightharpoonup> nat) \<Rightarrow> Area list \<times> (string \<rightharpoonup> nat)" where
  "provinceLoop i [] st = st"
| "provinceLoop i (p # ps) (trees, provinceOrder) =
     provinceLoop (Suc i) ps
       (trees @ [newArea (flat_Code p) (flat_Name p) ''0''], provinceOrder(flat_Code p \<mapsto> i))"

text \<open>The bodies of the city, area and street loops, on the variables they write.\<close>

definition cityStep ::
  "(string \<Rightarrow> string) \<Rightarrow> (string \<rightharpoonup> nat) \<Rightarrow> Area list \<times> (string \<rightharpoonup> nat) \<Rightarrow> flatNode \<Rightarrow>
   panic + (Area list \<times> (string \<rightharpoonup> nat))" where
  "cityStep spare provinceOrder st c =
     (case st of (trees, cityOrder) \<Rightarrow>
      case getProvince spare (flat_Code c) of Inl e \<Rightarrow> Inl e | Inr pCode \<Rightarrow>
      case at trees (lookup provinceOrder pCode) of Inl e \<Rightarrow> Inl e | Inr p \<Rightarrow>
      let p' = appendSub p (newArea (flat_Code c) (flat_Name c) (flat_ParentCode c)) in
      Inr (trees[lookup provinceOrder pCode := p'],
           cityOrder(flat_Code c \<mapsto> length (SubAreas p') - 1)))"

definition areaStep ::
  "(string \<Rightarrow> string) \<Rightarrow> (string \<rightharpoonup> nat) \<Rightarrow> (string \<rightharpoonup> nat) \<Rightarrow>
   Area list \<times> (string \<rightharpoonup> nat) \<Rightarrow> flatNode \<Rightarrow> panic + (Area list \<times> (string \<rightharpoonup> nat))" where
  "areaStep spare provinceOrder cityOrder st a =
     (case st of (trees, areaOrder) \<Rightarrow>
      case getProvince spare (flat_Code a) of Inl e \<Rightarrow> Inl e | Inr pCode \<Rightarrow>
      case getCity spare (flat_Code a) of Inl e \<Rightarrow> Inl e | Inr cCode \<Rightarrow>
      case at trees (lookup provinceOrder pCode) of Inl e \<Rightarrow> Inl e | Inr p \<Rightarrow>
      case at (SubAreas p) (lookup cityOrder cCode) of Inl e \<Rightarrow> Inl e | Inr c \<Rightarrow>
      let c' = appendSub c (newArea (flat_Code a) (flat_Name a) (flat_ParentCode a));
          p' = setSubs p ((SubAreas p)[lookup cityOrder cCode := c']) in
      Inr (trees[lookup provinceOrder pCode := p'],
           areaOrder(flat_Code a \<mapsto> length (SubAreas c') - 1)))"

definition streetStep ::
  "(string \<Rightarrow> string) \<Rightarrow> (string \<rightharpoonup> nat) \<Rightarrow> (string \<rightharpoonup> nat) \<Rightarrow> (string \<rightharpoonup> nat) \<Rightarrow>
   Area list \<Rightarrow> flatNode \<Rightarrow> panic + Area list" where
  "streetStep spare provinceOrder cityOrder areaOrder trees s =
     (case getProvince spare (flat_Code s) of Inl e \<Rightarrow> Inl e | Inr pCode \<Rightarrow>
      case getCity spare (flat_Code s) of Inl e \<Rightarrow> Inl e | Inr cCode \<Rightarrow>
      case getArea spare (flat_Code s) of Inl e \<Rightarrow> Inl e | Inr aCode \<Rightarrow>
      case at trees (lookup provinceOrder pCode) of Inl e \<Rightarrow> Inl e | Inr p \<Rightarrow>
      case at (SubAreas p) (lookup cityOrder cCode) of Inl e \<Rightarrow> Inl e | Inr c \<Rightarrow>
      case at (SubAreas c) (lookup areaOrder aCode) of Inl e \<Rightarrow> Inl e | Inr a \<Rightarrow>
      let a' = appendSub a (newArea (flat_Code s) (flat_Name s) (flat_ParentCode s));
          c' = setSubs c ((SubAreas c)[lookup areaOrder aCode := a']);
          p' = setSubs p ((SubAreas p)[lookup cityOrder cCode := c']) in
      Inr (trees[lookup provinceOrder pCode := p']))"

text \<open>
  \<open>buildTrees\<close> reads the package variables \<open>provinces\<close>, \<open>cities\<close>, \<open>areas\<close>, \<open>streets\<close>;
  here they are arguments.
\<close>

definition buildTrees ::
  "(string \<Rightarrow> string) \<Rightarrow> flatNode list \<Rightarrow> flatNode list \<Rightarrow> flatNode list \<Rightarrow> flatNode list \<Rightarrow>
   panic + Area list" where
  "buildTrees spare provinces cities areas streets =
     (case provinceLoop 0 provinces ([], Map.empty) of (trees0, provinceOrder) \<Rightarrow>
      case loop (cityStep spare provinceOrder) (trees0, Map.empty) cities of
        Inl e \<Rightarrow> Inl e
      | Inr (trees1, cityOrder) \<Rightarrow>
      case loop (areaStep spare provinceOrder cityOrder) (trees1, Map.empty) areas of
        Inl e \<Rightarrow> Inl e
      | Inr (trees2, areaOrder) \<Rightarrow>
      loop (streetStep spare provinceOrder cityOrder areaOrder) trees2 streets)"

subsection \<open>Nested-set indexer: indexTree, assignKeys\<close>

text \<open>
  \<open>indexTree\<close> writes \<open>Left\<close> and \<open>Right\<close> of the node it is given and returns the counter;
  the model returns the rewritten node with it. \<open>indexSubs\<close> is the loop over
  \<open>root.SubAreas\<close>, \<open>assignLoop\<close> the loop of \<open>assignKeys\<close>.
\<close>

fun indexTree :: "Area \<Rightarrow> int32 \<Rightarrow> Area \<times> int32"
  and indexSubs :: "Area list \<Rightarrow> int32 \<Rightarrow> Area list \<times> int32" where
  "indexTree (Area c n pc l r subs) start =
     (let start1 = start + 1;
          (subs', start2) = indexSubs subs start1;
          start3 = start2 + 1
      in (Area c n pc start1 start3 subs', start3))"
| "indexSubs [] start = ([], start)"
| "indexSubs (sub # subs) start =
     (let (sub', start1) = indexTree sub start;
          (subs', start2) = indexSubs subs start1
      in (sub' # subs', start2))"

fun assignLoop :: "Area list \<Rightarrow> int32 \<Rightarrow> Area list \<times> int32" where
  "assignLoop [] start = ([], start)"
| "assignLoop (p # trees) start =
     (let (p', start1) = indexTree p start;
          (trees', start2) = assignLoop trees start1
      in (p' # trees', start2))"

definition assignKeys :: "Area list \<Rightarrow> Area list" where
  "assignKeys trees = fst (assignLoop trees 0)"

subsection \<open>Statement emitter: itoa, genSQL, genSQLFile\<close>

text \<open>\<open>strconv.FormatInt(int64(i), 10)\<close>: the signed value in decimal.\<close>

fun digits :: "nat \<Rightarrow> string" where
  "digits n =
     (if n < 10 then [''0123456789'' ! n]
      else digits (n div 10) @ [''0123456789'' ! (n mod 10)])"

definition itoa :: "int32 \<Rightarrow> string" where
  "itoa i = (if sint i < 0 then CHR ''-'' # digits (nat (- sint i)) else digits (nat (sint i)))"

definition tblName :: string where
  "tblName = ''nested''"

definition insertPrefix :: string where
  "insertPrefix = ''INSERT INTO '' @ tblName @ ''(id, node, pid, depth, lft, rgt) VALUES(''"

text \<open>The buffer that \<open>genSQL\<close> fills for one area.\<close>

definition sql_of :: "Area \<Rightarrow> int32 \<Rightarrow> string" where
  "sql_of area depth =
     insertPrefix @ Code area @ '', '' @ [CHR 0x27] @ Name area @ [CHR 0x27] @ '', '' @
     ParentCode area @ '', '' @ itoa depth @ '', '' @ itoa (Left area) @ '', '' @
     itoa (Right area) @ '');'' @ [CHR 0x0A]"

text \<open>
  The file is the sequence of buffers written to it. Whether \<open>f.Write\<close> takes a buffer is up
  to the sink: \<open>accepts f sql\<close>, on the file so far and the buffer. A refused write is the
  \<open>log.Panic\<close> of \<open>genSQL\<close>.
\<close>

fun genSQL ::
  "(string list \<Rightarrow> string \<Rightarrow> bool) \<Rightarrow> string list \<Rightarrow> Area \<Rightarrow> int32 \<Rightarrow> panic + string list"
  and genSQL_subs ::
  "(string list \<Rightarrow> string \<Rightarrow> bool) \<Rightarrow> string list \<Rightarrow> Area list \<Rightarrow> int32 \<Rightarrow> panic + string list"
  where
  "genSQL accepts f (Area c n pc l r subs) depth =
     (let sql = sql_of (Area c n pc l r subs) depth in
      if accepts f sql then genSQL_subs accepts (f @ [sql]) subs (depth + 1)
      else Inl (WriteError (Area c n pc l r subs)))"
| "genSQL_subs accepts f [] depth = Inr f"
| "genSQL_subs accepts f (sub # subs) depth =
     (case genSQL accepts f sub depth of
        Inl e \<Rightarrow> Inl e
      | Inr f' \<Rightarrow> genSQL_subs accepts f' subs depth)"

fun genSQL_trees ::
  "(string list \<Rightarrow> string \<Rightarrow> bool) \<Rightarrow> string list \<Rightarrow> Area list \<Rightarrow> panic + string list" where
  "genSQL_trees accepts f [] = Inr f"
| "genSQL_trees accepts f (p # trees) =
     (case genSQL accepts f p 1 of
        Inl e \<Rightarrow> Inl e
      | Inr f' \<Rightarrow> genSQL_trees accepts f' trees)"

text \<open>\<open>created\<close>: whether \<open>os.Create\<close> succeeds; it truncates the file.\<close>

definition genSQLFile ::
  "bool \<Rightarrow> (string list \<Rightarrow> string \<Rightarrow> bool) \<Rightarrow> Area list \<Rightarrow> panic + string list" where
  "genSQLFile created accepts trees =
     (if created then genSQL_trees accepts [] trees else Inl CreateError)"

subsection \<open>main\<close>

text \<open>
  \<open>loadAddress\<close> fills the four package variables from the data files; here they are the
  arguments. The two reads \<open>trees[0]\<close> and \<open>trees[len(trees)-1]\<close> of the second log line
  panic on an empty forest. A panic is recovered by the deferred function, which logs the
  stack and lets \<open>main\<close> return: the outcome \<open>Inl e\<close>. Otherwise the outcome is the file.
\<close>

definition main ::
  "(string \<Rightarrow> string) \<Rightarrow> bool \<Rightarrow> (string list \<Rightarrow> string \<Rightarrow> bool) \<Rightarrow>
   flatNode list \<Rightarrow> flatNode list \<Rightarrow> flatNode list \<Rightarrow> flatNode list \<Rightarrow> panic + string list" where
  "main spare created accepts provinces cities areas streets =
     (case buildTrees spare provinces cities areas streets of
        Inl e \<Rightarrow> Inl e
      | Inr trees0 \<Rightarrow>
        let trees = assignKeys trees0 in
        case at trees 0 of Inl e \<Rightarrow> Inl e | Inr first \<Rightarrow>
        case at trees (length trees - 1) of Inl e \<Rightarrow> Inl e | Inr final \<Rightarrow>
        genSQLFile created accepts trees)"

subsection \<open>Notions of the specification\<close>

text \<open>The nodes of a tree: the proper descendants of a node, and the node with them.\<close>

fun descendants :: "Area \<Rightarrow> Area list" where
  "descendants (Area c n pc l r subs) = concat (map (\<lambda>sub. sub # descendants sub) subs)"

definition nodes_of :: "Area \<Rightarrow> Area list" where
  "nodes_of t = t # descendants t"

definition forest_nodes :: "Area list \<Rightarrow> Area list" where
  "forest_nodes trees = concat (map nodes_of trees)"

definition node_count :: "Area \<Rightarrow> nat" where
  "node_count t = length (nodes_of t)"

definition forest_count :: "Area list \<Rightarrow> nat" where
  "forest_count trees = length (forest_nodes trees)"

text \<open>
  The output records of the specification, \<open>(code, name, parentCode, depth, left, right)\<close>,
  listed pre-order: a node, then the records of its subtrees, one level deeper.
\<close>

type_synonym output_record = "string \<times> string \<times> string \<times> int32 \<times> int32 \<times> int32"

fun records :: "int32 \<Rightarrow> Area \<Rightarrow> output_record list" where
  "records depth (Area c n pc l r subs) =
     (c, n, pc, depth, l, r) # concat (map (records (depth + 1)) subs)"

definition forest_records :: "Area list \<Rightarrow> output_record list" where
  "forest_records trees = concat (map (records 1) trees)"

text \<open>The INSERT statement that carries an output record.\<close>

fun statement :: "output_record \<Rightarrow> string" where
  "statement (c, n, pc, depth, l, r) =
     ''INSERT INTO nested(id, node, pid, depth, lft, rgt) VALUES('' @ c @ '', '' @ [CHR 0x27] @
     n @ [CHR 0x27] @ '', '' @ pc @ '', '' @ itoa depth @ '', '' @ itoa l @ '', '' @ itoa r @
     '');'' @ [CHR 0x0A]"

text \<open>
  The nested-set property of the specification, on the signed values of the keys: a node's
  \<open>Left\<close> is below its \<open>Right\<close>; its children, in their stored order, lie strictly
  between the two, each child's \<open>Right\<close> below the next child's \<open>Left\<close>; and a node
  encloses each of its descendants.
\<close>

fun siblings_ordered :: "Area list \<Rightarrow> bool" where
  "siblings_ordered (c # d # cs) = (sint (Right c) < sint (Left d) \<and> siblings_ordered (d # cs))"
| "siblings_ordered cs = True"

definition children_nested :: "Area \<Rightarrow> bool" where
  "children_nested N =
     (sint (Left N) < sint (Right N) \<and>
      (SubAreas N \<noteq> [] \<longrightarrow>
         sint (Left N) < sint (Left (hd (SubAreas N))) \<and>
         sint (Right (last (SubAreas N))) < sint (Right N)) \<and>
      siblings_ordered (SubAreas N))"

definition encloses :: "Area \<Rightarrow> Area \<Rightarrow> bool" where
  "encloses N D =
     (sint (Left N) < sint (Left D) \<and> sint (Left D) < sint (Right D) \<and>
      sint (Right D) < sint (Right N))"

definition nested_set :: "Area list \<Rightarrow> bool" where
  "nested_set trees =
     (\<forall>N \<in> set (forest_nodes trees).
        children_nested N \<and> (\<forall>D \<in> set (descendants N). encloses N D))"

text \<open>
  The three text fields of a node and of an input record, and the fields a province
  record gives its root. \<open>leveled k t\<close> lists the nodes of \<open>t\<close> pre-order, each with its
  fields and its level, the root of \<open>t\<close> being at level \<open>k\<close>.
\<close>

type_synonym fields = "string \<times> string \<times> string"

definition node_fields :: "Area \<Rightarrow> fields" where
  "node_fields t = (Code t, Name t, ParentCode t)"

definition flat_fields :: "flatNode \<Rightarrow> fields" where
  "flat_fields x = (flat_Code x, flat_Name x, flat_ParentCode x)"

definition province_fields :: "flatNode \<Rightarrow> fields" where
  "province_fields p = (flat_Code p, flat_Name p, ''0'')"

fun leveled :: "nat \<Rightarrow> Area \<Rightarrow> (fields \<times> nat) list" where
  "leveled k (Area c n pc l r subs) = ((c, n, pc), k) # concat (map (leveled (Suc k)) subs)"

definition forest_leveled :: "nat \<Rightarrow> Area list \<Rightarrow> (fields \<times> nat) list" where
  "forest_leveled k trees = concat (map (leveled k) trees)"

text \<open>
  Projections of an output record: without the keys, and without the depth; and the
  fields and keys of a node.
\<close>

fun unleveled :: "output_record \<Rightarrow> fields \<times> int32" where
  "unleveled (c, n, pc, depth, l, r) = ((c, n, pc), depth)"

fun undepth :: "output_record \<Rightarrow> string \<times> string \<times> string \<times> int32 \<times> int32" where
  "undepth (c, n, pc, depth, l, r) = (c, n, pc, l, r)"

definition node_row :: "Area \<Rightarrow> string \<times> string \<times> string \<times> int32 \<times> int32" where
  "node_row N = (Code N, Name N, ParentCode N, Left N, Right N)"

text \<open>
  All the \<open>Left\<close> and \<open>Right\<close> values of a tree, in the order in which the indexer
  writes them.
\<close>

fun keys :: "Area \<Rightarrow> int32 list" where
  "keys (Area c n pc l r subs) = l # concat (map keys subs) @ [r]"

definition forest_keys :: "Area list \<Rightarrow> int32 list" where
  "forest_keys trees = concat (map keys trees)"

text \<open>
  Sibling order. The children of a node, read as records, are listed in the order in which
  these records stand in the input list of their level: they are a subsequence of it. This
  is said of the streets under an area, of the areas under a city with the streets below
  them, of the cities under a province with all below them, and of the whole forest, whose
  roots are the province records in their order.
\<close>

definition ordered_streets :: "fields list \<Rightarrow> Area \<Rightarrow> bool" where
  "ordered_streets Z a = subseq (map node_fields (SubAreas a)) Z"

definition ordered_areas :: "fields list \<Rightarrow> fields list \<Rightarrow> Area \<Rightarrow> bool" where
  "ordered_areas Y Z c =
     (subseq (map node_fields (SubAreas c)) Y \<and> (\<forall>a \<in> set (SubAreas c). ordered_streets Z a))"

definition ordered_cities :: "fields list \<Rightarrow> fields list \<Rightarrow> fields list \<Rightarrow> Area \<Rightarrow> bool" where
  "ordered_cities X Y Z p =
     (subseq (map node_fields (SubAreas p)) X \<and> (\<forall>c \<in> set (SubAreas p). ordered_areas Y Z c))"

definition siblings_in_input_order ::
  "Area list \<Rightarrow> flatNode list \<Rightarrow> flatNode list \<Rightarrow> flatNode list \<Rightarrow> flatNode list \<Rightarrow> bool" where
  "siblings_in_input_order trees provinces cities areas streets =
     (map node_fields trees = map province_fields provinces \<and>
      (\<forall>p \<in> set trees.
         ordered_cities (map flat_fields cities) (map flat_fields areas) (map flat_fields streets) p))"

text \<open>
  An input whose records all resolve to existing parents: the province code of every city
  is the code of a province record, the city code of every area is the code of a city
  record, the area code of every street is the code of an area record.
\<close>

definition resolves_to :: "(string \<Rightarrow> panic + string) \<Rightarrow> flatNode list \<Rightarrow> flatNode \<Rightarrow> bool" where
  "resolves_to resolver parents x =
     (\<exists>parent. resolver (flat_Code x) = Inr parent \<and> parent \<in> flat_Code ` set parents)"

definition all_resolve ::
  "(string \<Rightarrow> string) \<Rightarrow> flatNode list \<Rightarrow> flatNode list \<Rightarrow> flatNode list \<Rightarrow> flatNode list \<Rightarrow> bool"
  where
  "all_resolve spare provinces cities areas streets =
     ((\<forall>c \<in> set cities. resolves_to (getProvince spare) provinces c) \<and>
      (\<forall>a \<in> set areas. resolves_to (getCity spare) cities a) \<and>
      (\<forall>s \<in> set streets. resolves_to (getArea spare) areas s))"

text \<open>
  The capacity of the byte slice converted from a code, and the panics that the Go run time
  raises by itself: their values are two numbers.
\<close>

definition capacity :: "(string \<Rightarrow> string) \<Rightarrow> string \<Rightarrow> nat" where
  "capacity spare code = length code + length (spare code)"

definition runtime_panic :: "panic \<Rightarrow> bool" where
  "runtime_panic e =
     ((\<exists>n k. e = SliceBounds n k \<and> k < n) \<or> (\<exists>i k. e = IndexRange i k \<and> k \<le> i))"

text \<open>
  A record whose resolved parent code is the code of no record of the level above. The
  fields of the children of a node, in their stored order. The tables of \<open>buildTrees\<close> as
  they stand after their loops: \<open>provinceOrder\<close> after the province loop, \<open>cityOrder\<close>
  after the city loop. And the forest with one more node: appended to the children of the
  root at position \<open>i\<close>, of that root's child at position \<open>j\<close>, of that child's child at
  position \<open>h\<close>.
\<close>

definition parent_missing :: "(string \<Rightarrow> panic + string) \<Rightarrow> flatNode list \<Rightarrow> flatNode \<Rightarrow> bool" where
  "parent_missing resolver parents x =
     (\<exists>parent. resolver (flat_Code x) = Inr parent \<and> parent \<notin> flat_Code ` set parents)"

definition children_fields :: "Area \<Rightarrow> fields list" where
  "children_fields t = map node_fields (SubAreas t)"

definition provinceTable :: "flatNode list \<Rightarrow> (string \<rightharpoonup> nat)" where
  "provinceTable provinces = snd (provinceLoop 0 provinces ([], Map.empty))"

definition cityTable ::
  "(string \<Rightarrow> string) \<Rightarrow> flatNode list \<Rightarrow> flatNode list \<Rightarrow> (string \<rightharpoonup> nat)" where
  "cityTable spare provinces cities =
     (case loop (cityStep spare (provinceTable provinces))
             (fst (provinceLoop 0 provinces ([], Map.empty)), Map.empty) cities of
        Inl e \<Rightarrow> Map.empty
      | Inr (trees, cityOrder) \<Rightarrow> cityOrder)"

definition add_city :: "Area \<Rightarrow> Area list \<Rightarrow> nat \<Rightarrow> Area list" where
  "add_city n trees i = trees[i := appendSub (trees ! i) n]"

definition add_area :: "Area \<Rightarrow> Area list \<Rightarrow> nat \<Rightarrow> nat \<Rightarrow> Area list" where
  "add_area n trees i j =
     trees[i := setSubs (trees ! i) ((SubAreas (trees ! i))[j :=
        appendSub (SubAreas (trees ! i) ! j) n])]"

definition add_street :: "Area \<Rightarrow> Area list \<Rightarrow> nat \<Rightarrow> nat \<Rightarrow> nat \<Rightarrow> Area list" where
  "add_street n trees i j h =
     trees[i := setSubs (trees ! i) ((SubAreas (trees ! i))[j :=
        setSubs (SubAreas (trees ! i) ! j) ((SubAreas (SubAreas (trees ! i) ! j))[h :=
           appendSub (SubAreas (SubAreas (trees ! i) ! j) ! h) n])])]"

subsection \<open>Auxiliary notions of the proofs\<close>

text \<open>
  \<open>keyed k t\<close>: the keys of the subtree \<open>t\<close> are those that the indexer writes when it
  enters \<open>t\<close> with the counter at \<open>k\<close>, as 32-bit words. \<open>unkeyed\<close> forgets the keys.
\<close>

fun keyed :: "nat \<Rightarrow> Area \<Rightarrow> bool" and keyed_list :: "nat \<Rightarrow> Area list \<Rightarrow> bool" where
  "keyed k (Area c n pc l r subs) =
     (l = of_nat (k + 1) \<and> r = of_nat (k + 2 * node_count (Area c n pc l r subs)) \<and>
      keyed_list (k + 1) subs)"
| "keyed_list k [] = True"
| "keyed_list k (t # ts) = (keyed k t \<and> keyed_list (k + 2 * node_count t) ts)"

fun unkeyed :: "Area \<Rightarrow> Area" where
  "unkeyed (Area c n pc l r subs) = Area c n pc 0 0 (map unkeyed subs)"

text \<open>
  The tables of \<open>buildTrees\<close> point into the forest: a city code to a position among the
  children of its resolved province, an area code to a position among the children of its
  resolved city. \<open>grows\<close>: the later forest has as many roots as the earlier one, and
  at every position at least as many cities and areas.
\<close>

definition city_table_ok ::
  "(string \<Rightarrow> string) \<Rightarrow> (string \<rightharpoonup> nat) \<Rightarrow> (string \<rightharpoonup> nat) \<Rightarrow> Area list \<Rightarrow> bool" where
  "city_table_ok spare po co trees =
     (\<forall>k j. co k = Some j \<longrightarrow>
        (\<exists>pc. getProvince spare k = Inr pc \<and> lookup po pc < length trees \<and>
              j < length (SubAreas (trees ! lookup po pc))))"

definition area_table_ok ::
  "(string \<Rightarrow> string) \<Rightarrow> (string \<rightharpoonup> nat) \<Rightarrow> (string \<rightharpoonup> nat) \<Rightarrow> (string \<rightharpoonup> nat) \<Rightarrow>
   Area list \<Rightarrow> bool" where
  "area_table_ok spare po co ao trees =
     (\<forall>k h. ao k = Some h \<longrightarrow>
        (\<exists>pc cc. getProvince spare k = Inr pc \<and> getCity spare k = Inr cc \<and>
           lookup po pc < length trees \<and>
           lookup co cc < length (SubAreas (trees ! lookup po pc)) \<and>
           h < length (SubAreas (SubAreas (trees ! lookup po pc) ! lookup co cc))))"

definition grows :: "Area list \<Rightarrow> Area list \<Rightarrow> bool" where
  "grows trees trees' =
     (length trees' = length trees \<and>
      (\<forall>i < length trees.
         length (SubAreas (trees ! i)) \<le> length (SubAreas (trees' ! i)) \<and>
         (\<forall>j < length (SubAreas (trees ! i)).
            length (SubAreas (SubAreas (trees ! i) ! j)) \<le>
            length (SubAreas (SubAreas (trees' ! i) ! j)))))"

text \<open>
  \<open>province_table_ok\<close>: the province table points into the list of roots; \<open>tables_ok\<close>: the
  three tables point into the forest. \<open>extends\<close>: the later forest has the roots of the
  earlier one, and under every root, city and area of the earlier forest the children it had,
  at their positions, possibly followed by new ones.
\<close>

definition province_table_ok :: "(string \<rightharpoonup> nat) \<Rightarrow> Area list \<Rightarrow> bool" where
  "province_table_ok po trees = (\<forall>k i. po k = Some i \<longrightarrow> i < length trees)"

definition tables_ok ::
  "(string \<Rightarrow> string) \<Rightarrow> (string \<rightharpoonup> nat) \<Rightarrow> (string \<rightharpoonup> nat) \<Rightarrow> (string \<rightharpoonup> nat) \<Rightarrow>
   Area list \<Rightarrow> bool" where
  "tables_ok spare po co ao trees =
     (province_table_ok po trees \<and> city_table_ok spare po co trees \<and>
      area_table_ok spare po co ao trees)"

definition ext3 :: "Area \<Rightarrow> Area \<Rightarrow> bool" where
  "ext3 a a' = prefix (children_fields a) (children_fields a')"

definition ext2 :: "Area \<Rightarrow> Area \<Rightarrow> bool" where
  "ext2 c c' =
     (prefix (children_fields c) (children_fields c') \<and>
      (\<forall>h < length (SubAreas c). ext3 (SubAreas c ! h) (SubAreas c' ! h)))"

definition ext1 :: "Area \<Rightarrow> Area \<Rightarrow> bool" where
  "ext1 p p' =
     (prefix (children_fields p) (children_fields p') \<and>
      (\<forall>j < length (SubAreas p). ext2 (SubAreas p ! j) (SubAreas p' ! j)))"

definition extends :: "Area list \<Rightarrow> Area list \<Rightarrow> bool" where
  "extends trees trees' =
     (length trees' = length trees \<and> (\<forall>i < length trees. ext1 (trees ! i) (trees' ! i)))"

subsection \<open>Example inputs\<close>

text \<open>
  Two resolvers. With \<open>no_spare\<close> the converted slice has no capacity beyond its length,
  the least the language allows. With \<open>zero_spare\<close> it has capacity 32 and zero bytes
  behind its length, as a slice cut from a zeroed buffer of 32 bytes, which a Go run time
  may use for the conversion of a short string. And a sink that takes every write.
\<close>

definition no_spare :: "string \<Rightarrow> string" where
  "no_spare code = []"

definition zero_spare :: "string \<Rightarrow> string" where
  "zero_spare code = replicate (32 - length code) (CHR 0x00)"

definition sink_ok :: "string list \<Rightarrow> string \<Rightarrow> bool" where
  "sink_ok f sql = True"

text \<open>
  A record with empty fields, and the example of the specification: one province, one city,
  one area, one street, with the forest built from them and its indexed form.
\<close>

definition nameless :: flatNode where
  "nameless = \<lparr>flat_Code = [], flat_Name = [], flat_ParentCode = []\<rparr>"

definition example_province :: flatNode where
  "example_province = \<lparr>flat_Code = ''11'', flat_Name = ''A'', flat_ParentCode = []\<rparr>"

definition example_city :: flatNode where
  "example_city = \<lparr>flat_Code = ''1101'', flat_Name = ''B'', flat_ParentCode = ''11''\<rparr>"

definition example_area :: flatNode where
  "example_area = \<lparr>flat_Code = ''110101'', flat_Name = ''C'', flat_ParentCode = ''1101''\<rparr>"

definition example_street :: flatNode where
  "example_street =
     \<lparr>flat_Code = ''1101010001'', flat_Name = ''D'', flat_ParentCode = ''110101''\<rparr>"

definition example_forest :: "Area list" where
  "example_forest =
     [Area ''11'' ''A'' ''0'' 0 0
       [Area ''1101'' ''B'' ''11'' 0 0
         [Area ''110101'' ''C'' ''1101'' 0 0
           [Area ''1101010001'' ''D'' ''110101'' 0 0 []]]]]"

definition example_indexed :: "Area list" where
  "example_indexed =
     [Area ''11'' ''A'' ''0'' 1 8
       [Area ''1101'' ''B'' ''11'' 2 7
         [Area ''110101'' ''C'' ''1101'' 3 6
           [Area ''1101010001'' ''D'' ''110101'' 4 5 []]]]]"

text \<open>
  Two provinces with four cities, three areas and one street, the lists interleaved, and
  the forest built from them.
\<close>

definition two_provinces :: "flatNode list" where
  "two_provinces =
     [\<lparr>flat_Code = ''110000'', flat_Name = ''A'', flat_ParentCode = ''0''\<rparr>,
      \<lparr>flat_Code = ''120000'', flat_Name = ''E'', flat_ParentCode = ''0''\<rparr>]"

definition four_cities :: "flatNode list" where
  "four_cities =
     [\<lparr>flat_Code = ''120100'', flat_Name = ''F'', flat_ParentCode = ''120000''\<rparr>,
      \<lparr>flat_Code = ''110100'', flat_Name = ''B'', flat_ParentCode = ''110000''\<rparr>,
      \<lparr>flat_Code = ''120200'', flat_Name = ''G'', flat_ParentCode = ''120000''\<rparr>,
      \<lparr>flat_Code = ''110200'', flat_Name = ''H'', flat_ParentCode = ''110000''\<rparr>]"

definition three_areas :: "flatNode list" where
  "three_areas =
     [\<lparr>flat_Code = ''110102'', flat_Name = ''J'', flat_ParentCode = ''110100''\<rparr>,
      \<lparr>flat_Code = ''120101'', flat_Name = ''K'', flat_ParentCode = ''120100''\<rparr>,
      \<lparr>flat_Code = ''110101'', flat_Name = ''C'', flat_ParentCode = ''110100''\<rparr>]"

definition one_street :: "flatNode list" where
  "one_street =
     [\<lparr>flat_Code = ''110101001'', flat_Name = ''D'', flat_ParentCode = ''110101''\<rparr>]"

definition two_trees :: "Area list" where
  "two_trees =
     [Area ''110000'' ''A'' ''0'' 0 0
       [Area ''110100'' ''B'' ''110000'' 0 0
         [Area ''110102'' ''J'' ''110100'' 0 0 [],
          Area ''110101'' ''C'' ''110100'' 0 0 [Area ''110101001'' ''D'' ''110101'' 0 0 []]],
        Area ''110200'' ''H'' ''110000'' 0 0 []],
      Area ''120000'' ''E'' ''0'' 0 0
       [Area ''120100'' ''F'' ''120000'' 0 0 [Area ''120101'' ''K'' ''120100'' 0 0 []],
        Area ''120200'' ''G'' ''120000'' 0 0 []]]"

text \<open>
  One province, and a city, an area and a street whose resolved parent codes (120000,
  130100, 140101) are the codes of no record; the forest built from them.
\<close>

definition one_province :: "flatNode list" where
  "one_province = [\<lparr>flat_Code = ''110000'', flat_Name = ''A'', flat_ParentCode = ''0''\<rparr>]"

definition orphan_city :: flatNode where
  "orphan_city = \<lparr>flat_Code = ''120100'', flat_Name = ''B'', flat_ParentCode = ''120000''\<rparr>"

definition orphan_area :: flatNode where
  "orphan_area = \<lparr>flat_Code = ''130101'', flat_Name = ''C'', flat_ParentCode = ''130100''\<rparr>"

definition orphan_street :: flatNode where
  "orphan_street =
     \<lparr>flat_Code = ''140101001'', flat_Name = ''D'', flat_ParentCode = ''140101''\<rparr>"

definition adopted_forest :: "Area list" where
  "adopted_forest =
     [Area ''110000'' ''A'' ''0'' 0 0
       [Area ''120100'' ''B'' ''120000'' 0 0
         [Area ''130101'' ''C'' ''130100'' 0 0
           [Area ''140101001'' ''D'' ''140101'' 0 0 []]]]]"

section \<open>Properties\<close>


subsection \<open>The code resolver\<close>

lemma slice_to_enough: "n \<le> length b \<Longrightarrow> slice_to b behind n = Inr (take n b)"
  by (simp add: slice_to_def)

lemma copy_bytes_same: "length src = length dst \<Longrightarrow> copy_bytes dst src = src"
  by (simp add: copy_bytes_def)

lemma getProvince_enough:
  "2 \<le> length code \<Longrightarrow> getProvince spare code = Inr (take 2 code @ ''0000'')"
  by (simp add: getProvince_def slice_to_enough copy_bytes_same)

lemma getCity_enough:
  "4 \<le> length code \<Longrightarrow> getCity spare code = Inr (take 4 code @ ''00'')"
  by (simp add: getCity_def slice_to_enough copy_bytes_same)

lemma getArea_enough:
  "6 \<le> length code \<Longrightarrow> getArea spare code = Inr (take 6 code)"
  by (simp add: getArea_def slice_to_enough copy_bytes_same)

text \<open>
  Claim C8. For a code of at least 2 (4, 6) characters, \<open>getProvince\<close> (\<open>getCity\<close>,
  \<open>getArea\<close>) returns its first 2 (4, 6) characters, padded on the right with the digit 0
  to six characters; the result has length 6.
\<close>

theorem resolver_prefix_padded:
  "(2 \<le> length code \<longrightarrow>
      getProvince spare code = Inr (take 2 code @ ''0000'') \<and>
      length (take 2 code @ ''0000'') = 6) \<and>
   (4 \<le> length code \<longrightarrow>
      getCity spare code = Inr (take 4 code @ ''00'') \<and>
      length (take 4 code @ ''00'') = 6) \<and>
   (6 \<le> length code \<longrightarrow>
      getArea spare code = Inr (take 6 code) \<and> length (take 6 code) = 6)"
  by (simp add: getProvince_enough getCity_enough getArea_enough)

theorem resolver_prefix_padded_witness:
  "6 \<le> length ''1101010001'' \<and>
   getProvince (\<lambda>_. []) ''1101010001'' = Inr ''110000'' \<and>
   getCity (\<lambda>_. []) ''1101010001'' = Inr ''110100'' \<and>
   getArea (\<lambda>_. []) ''1101010001'' = Inr ''110101''"
  using resolver_prefix_padded [of "''1101010001''" "\<lambda>_. []"] by simp

subsection \<open>The indexer writes consecutive keys\<close>

lemma forest_nodes_simps [simp]:
  "forest_nodes [] = []"
  "forest_nodes (t # ts) = nodes_of t @ forest_nodes ts"
  "forest_nodes (ts @ us) = forest_nodes ts @ forest_nodes us"
  by (simp_all add: forest_nodes_def)

lemma forest_count_simps [simp]:
  "forest_count [] = 0"
  "forest_count (t # ts) = node_count t + forest_count ts"
  "forest_count (ts @ us) = forest_count ts + forest_count us"
  by (simp_all add: forest_count_def node_count_def)

lemma descendants_forest: "descendants (Area c n pc l r subs) = forest_nodes subs"
  by (simp add: forest_nodes_def nodes_of_def [abs_def])

lemma node_count_Area [simp]: "node_count (Area c n pc l r subs) = Suc (forest_count subs)"
  by (simp add: node_count_def nodes_of_def forest_count_def descendants_forest del: descendants.simps)

lemma node_count_pos: "0 < node_count t"
  by (simp add: node_count_def nodes_of_def)

lemma forest_count_sum: "forest_count ts = sum_list (map node_count ts)"
  by (induction ts) simp_all

lemma index_unkeyed:
  "unkeyed (fst (indexTree t s)) = unkeyed t"
  "map unkeyed (fst (indexSubs ts s)) = map unkeyed ts"
proof (induction t s and ts s rule: indexTree_indexSubs.induct)
  case (1 c n pc l r subs start)
  then show ?case by (simp add: split_beta Let_def)
next
  case (2 start)
  show ?case by simp
next
  case (3 sub subs start)
  obtain sub' start1 where a: "indexTree sub start = (sub', start1)"
    by (cases "indexTree sub start")
  from 3(1) 3(2) [OF refl a [symmetric]] a show ?case
    by (simp add: split_beta)
qed

lemma node_count_unkeyed: "node_count (unkeyed t) = node_count t"
  by (induction t rule: unkeyed.induct) (simp add: forest_count_sum o_def cong: map_cong)

lemma forest_count_unkeyed: "forest_count (map unkeyed ts) = forest_count ts"
  by (simp add: forest_count_sum o_def node_count_unkeyed)

lemma node_count_indexTree: "node_count (fst (indexTree t s)) = node_count t"
  by (metis index_unkeyed(1) node_count_unkeyed)

lemma forest_count_indexSubs: "forest_count (fst (indexSubs ts s)) = forest_count ts"
  by (metis index_unkeyed(2) forest_count_unkeyed)

lemma index_keyed_aux:
  "s = of_nat k \<Longrightarrow> snd (indexTree t s) = of_nat (k + 2 * node_count t) \<and>
   keyed k (fst (indexTree t s))"
  "s = of_nat k \<Longrightarrow> snd (indexSubs ts s) = of_nat (k + 2 * forest_count ts) \<and>
   keyed_list k (fst (indexSubs ts s))"
proof (induction t s and ts s arbitrary: k and k rule: indexTree_indexSubs.induct)
  case (1 c n pc l r subs start)
  have e: "start + 1 = of_nat (k + 1)" using 1(2) by simp
  from 1(1) [OF refl e] 1(2) show ?case
    by (simp add: split_beta Let_def forest_count_indexSubs)
next
  case (2 start)
  then show ?case by simp
next
  case (3 sub subs start)
  obtain sub' start1 where a: "indexTree sub start = (sub', start1)"
    by (cases "indexTree sub start")
  from 3(1) [OF 3(3)] a have b: "start1 = of_nat (k + 2 * node_count sub)" and c: "keyed k sub'"
    by simp_all
  from node_count_indexTree [of sub start] a have d: "node_count sub' = node_count sub"
    by simp
  from 3(2) [OF refl a [symmetric] b] a b c d show ?case
    by (simp add: split_beta add.assoc)
qed

lemmas index_keyed = index_keyed_aux [OF refl]

lemma sint_of_nat_small: "k < 2 ^ 31 \<Longrightarrow> sint (of_nat k :: int32) = int k"
  by (simp add: signed_of_nat signed_take_bit_int_eq_self)

lemma keyed_fields:
  "keyed k t \<Longrightarrow> Left t = of_nat (k + 1) \<and> Right t = of_nat (k + 2 * node_count t) \<and>
     keyed_list (k + 1) (SubAreas t)"
  by (cases t) simp

lemma descendants_SubAreas: "descendants t = forest_nodes (SubAreas t)"
  by (cases t) (simp add: descendants_forest del: descendants.simps)

lemma node_count_SubAreas: "node_count t = Suc (forest_count (SubAreas t))"
  by (cases t) simp

lemma keyed_list_nodes:
  "keyed_list k ts \<Longrightarrow> N \<in> set (forest_nodes ts) \<Longrightarrow>
     \<exists>m. keyed m N \<and> k \<le> m \<and> m + 2 * node_count N \<le> k + 2 * forest_count ts"
proof (induction "forest_count ts" arbitrary: k ts N rule: less_induct)
  case less
  show ?case
  proof (cases ts)
    case Nil
    with less.prems show ?thesis by simp
  next
    case (Cons t us)
    with less.prems have kt: "keyed k t" and kus: "keyed_list (k + 2 * node_count t) us"
      by simp_all
    from less.prems(2) Cons consider "N = t" | "N \<in> set (descendants t)" | "N \<in> set (forest_nodes us)"
      by (auto simp: nodes_of_def)
    then show ?thesis
    proof cases
      case 1
      with kt Cons show ?thesis by auto
    next
      case 2
      have sub: "keyed_list (k + 1) (SubAreas t)" using kt keyed_fields by blast
      have lt: "forest_count (SubAreas t) < forest_count ts"
        using Cons by (simp add: node_count_SubAreas)
      from less.hyps [OF lt sub] 2 obtain m where
        "keyed m N" "k + 1 \<le> m" "m + 2 * node_count N \<le> k + 1 + 2 * forest_count (SubAreas t)"
        by (auto simp: descendants_SubAreas)
      then show ?thesis using Cons by (intro exI [of _ m]) (simp add: node_count_SubAreas)
    next
      case 3
      have lt: "forest_count us < forest_count ts"
        using Cons node_count_pos [of t] by simp
      from less.hyps [OF lt kus 3] obtain m where
        "keyed m N" "k + 2 * node_count t \<le> m"
        "m + 2 * node_count N \<le> k + 2 * node_count t + 2 * forest_count us"
        by auto
      then show ?thesis using Cons by (intro exI [of _ m]) simp
    qed
  qed
qed

lemma keyed_descendants:
  assumes "keyed k t" "D \<in> set (descendants t)"
  shows "\<exists>m. keyed m D \<and> k + 1 \<le> m \<and> m + 2 * node_count D + 1 \<le> k + 2 * node_count t"
proof -
  have "keyed_list (k + 1) (SubAreas t)" using assms(1) keyed_fields by blast
  from keyed_list_nodes [OF this] assms(2) obtain m where
    "keyed m D" "k + 1 \<le> m" "m + 2 * node_count D \<le> k + 1 + 2 * forest_count (SubAreas t)"
    by (auto simp: descendants_SubAreas)
  then show ?thesis by (intro exI [of _ m]) (simp add: node_count_SubAreas)
qed

lemma keyed_sint:
  assumes "keyed k t" "k + 2 * node_count t < 2 ^ 31"
  shows "sint (Left t) = int (k + 1)" "sint (Right t) = int (k + 2 * node_count t)"
proof -
  have "k + 1 < 2 ^ 31" using assms(2) node_count_pos [of t] by simp
  from sint_of_nat_small [OF this] keyed_fields [OF assms(1)]
  show "sint (Left t) = int (k + 1)" by simp
  from sint_of_nat_small [OF assms(2)] keyed_fields [OF assms(1)]
  show "sint (Right t) = int (k + 2 * node_count t)" by simp
qed

lemma keyed_encloses:
  assumes "keyed k t" "D \<in> set (descendants t)" "k + 2 * node_count t < 2 ^ 31"
  shows "encloses t D"
proof -
  from keyed_descendants [OF assms(1,2)] obtain m where
    m: "keyed m D" "k + 1 \<le> m" "m + 2 * node_count D + 1 \<le> k + 2 * node_count t"
    by blast
  have bound: "m + 2 * node_count D < 2 ^ 31" using m(3) assms(3) by simp
  show ?thesis
    using keyed_sint [OF assms(1,3)] keyed_sint [OF m(1) bound] m node_count_pos [of D]
    by (simp add: encloses_def)
qed

lemma keyed_list_siblings:
  "keyed_list k cs \<Longrightarrow> k + 2 * forest_count cs < 2 ^ 31 \<Longrightarrow> siblings_ordered cs"
proof (induction cs arbitrary: k rule: siblings_ordered.induct)
  case (1 c d cs)
  from 1(2) have kc: "keyed k c" and kd: "keyed (k + 2 * node_count c) d"
    and rest: "keyed_list (k + 2 * node_count c) (d # cs)" by simp_all
  have bc: "k + 2 * node_count c < 2 ^ 31"
    and bd: "k + 2 * node_count c + 2 * node_count d < 2 ^ 31"
    using 1(3) by simp_all
  have "sint (Right c) < sint (Left d)"
    using keyed_sint(2) [OF kc bc] keyed_sint(1) [OF kd bd] by simp
  moreover have "siblings_ordered (d # cs)"
    using 1(1) [OF rest] 1(3) by simp
  ultimately show ?case by simp
qed simp_all

lemma keyed_list_hd: "keyed_list k cs \<Longrightarrow> cs \<noteq> [] \<Longrightarrow> keyed k (hd cs)"
  by (cases cs) simp_all

lemma node_count_last_le: "cs \<noteq> [] \<Longrightarrow> node_count (last cs) \<le> forest_count cs"
  by (induction cs) auto

lemma keyed_list_last:
  "keyed_list k cs \<Longrightarrow> cs \<noteq> [] \<Longrightarrow>
     keyed (k + 2 * forest_count cs - 2 * node_count (last cs)) (last cs)"
proof (induction cs arbitrary: k)
  case Nil
  then show ?case by simp
next
  case (Cons c cs)
  show ?case
  proof (cases "cs = []")
    case True
    with Cons.prems show ?thesis by simp
  next
    case False
    with Cons.IH [of "k + 2 * node_count c"] Cons.prems node_count_last_le [OF False]
    show ?thesis
      by (simp add: add.assoc)
  qed
qed

lemma keyed_children_nested:
  assumes "keyed k t" "k + 2 * node_count t < 2 ^ 31"
  shows "children_nested t"
proof -
  note kf = keyed_fields [OF assms(1)]
  have sub: "keyed_list (k + 1) (SubAreas t)" using kf by blast
  note lr = keyed_sint [OF assms]
  have a: "sint (Left t) < sint (Right t)"
    using lr node_count_pos [of t] by simp
  have b: "siblings_ordered (SubAreas t)"
    using keyed_list_siblings [OF sub] assms(2) by (simp add: node_count_SubAreas)
  have c: "sint (Left t) < sint (Left (hd (SubAreas t))) \<and>
           sint (Right (last (SubAreas t))) < sint (Right t)" if ne: "SubAreas t \<noteq> []"
  proof -
    let ?h = "hd (SubAreas t)" and ?l = "last (SubAreas t)"
    let ?m = "k + 1 + 2 * forest_count (SubAreas t) - 2 * node_count ?l"
    note le = node_count_last_le [OF ne]
    have "node_count ?h \<le> forest_count (SubAreas t)"
      using ne by (cases "SubAreas t") simp_all
    then have bh: "k + 1 + 2 * node_count ?h < 2 ^ 31"
      using assms(2) by (simp add: node_count_SubAreas)
    have bl: "?m + 2 * node_count ?l < 2 ^ 31"
      using assms(2) le by (simp add: node_count_SubAreas)
    from keyed_sint(1) [OF keyed_list_hd [OF sub ne] bh]
      keyed_sint(2) [OF keyed_list_last [OF sub ne] bl] lr le
    show ?thesis
      by (simp add: node_count_SubAreas)
  qed
  from a b c show ?thesis by (simp add: children_nested_def)
qed

lemma assignLoop_indexSubs: "assignLoop trees s = indexSubs trees s"
  by (induction trees arbitrary: s) (simp_all add: split_beta)

lemma assignKeys_keyed: "keyed_list 0 (assignKeys trees)"
  using index_keyed(2) [where k = 0 and ts = trees]
  by (simp add: assignKeys_def assignLoop_indexSubs)

lemma forest_count_assignKeys: "forest_count (assignKeys trees) = forest_count trees"
  by (simp add: assignKeys_def assignLoop_indexSubs forest_count_indexSubs)

lemma assignKeys_nested_set:
  assumes "2 * forest_count trees < 2 ^ 31"
  shows "nested_set (assignKeys trees)"
  unfolding nested_set_def
proof (intro ballI conjI)
  fix N assume "N \<in> set (forest_nodes (assignKeys trees))"
  from keyed_list_nodes [OF assignKeys_keyed this] obtain m where
    m: "keyed m N" "m + 2 * node_count N \<le> 2 * forest_count trees"
    by (auto simp: forest_count_assignKeys)
  with assms have bound: "m + 2 * node_count N < 2 ^ 31" by simp
  show "children_nested N" by (rule keyed_children_nested [OF m(1) bound])
  fix D assume "D \<in> set (descendants N)"
  then show "encloses N D" by (rule keyed_encloses [OF m(1) _ bound])
qed

subsection \<open>What buildTrees attaches, and where\<close>

lemma leveled_unfold: "leveled k t = (node_fields t, k) # forest_leveled (Suc k) (SubAreas t)"
  by (cases t) (simp add: node_fields_def forest_leveled_def)

lemma forest_leveled_simps [simp]:
  "forest_leveled k [] = []"
  "forest_leveled k (t # ts) = leveled k t @ forest_leveled k ts"
  "forest_leveled k (ts @ us) = forest_leveled k ts @ forest_leveled k us"
  by (simp_all add: forest_leveled_def)

lemma leveled_newArea: "leveled k (newArea c n pc) = [((c, n, pc), k)]"
  by (simp add: newArea_def)

lemma SubAreas_appendSub [simp]: "SubAreas (appendSub p x) = SubAreas p @ [x]"
  by (simp add: appendSub_def)

lemma SubAreas_setSubs [simp]: "SubAreas (setSubs p subs) = subs"
  by (simp add: setSubs_def)

lemma fields_appendSub [simp]: "node_fields (appendSub p x) = node_fields p"
  by (simp add: appendSub_def node_fields_def)

lemma fields_setSubs [simp]: "node_fields (setSubs p subs) = node_fields p"
  by (simp add: setSubs_def node_fields_def)

lemma leveled_appendSub: "leveled k (appendSub p x) = leveled k p @ leveled (Suc k) x"
  by (simp add: leveled_unfold [of k p] leveled_unfold [of k "appendSub p x"])

lemma leveled_setSubs: "leveled k (setSubs p subs) = (node_fields p, k) # forest_leveled (Suc k) subs"
  by (simp add: leveled_unfold [of k "setSubs p subs"])

lemma forest_leveled_update:
  assumes "i < length ts" "mset (leveled k t') = mset (leveled k (ts ! i)) + M"
  shows "mset (forest_leveled k (ts[i := t'])) = mset (forest_leveled k ts) + M"
proof -
  have "ts = take i ts @ ts ! i # drop (Suc i) ts"
    using assms(1) by (simp add: id_take_nth_drop)
  then have "mset (forest_leveled k ts) =
      mset (forest_leveled k (take i ts)) + mset (leveled k (ts ! i)) +
      mset (forest_leveled k (drop (Suc i) ts))"
    by (metis forest_leveled_simps(2,3) mset_append add.assoc)
  moreover have "mset (forest_leveled k (ts[i := t'])) =
      mset (forest_leveled k (take i ts)) + mset (leveled k t') +
      mset (forest_leveled k (drop (Suc i) ts))"
    using assms(1) by (simp add: upd_conv_take_nth_drop)
  ultimately show ?thesis using assms(2) by simp
qed

lemma at_Inr: "at xs i = Inr x \<longleftrightarrow> i < length xs \<and> x = xs ! i"
  by (auto simp: at_def)

lemma attach1:
  assumes "i < length ts"
  shows "mset (forest_leveled k (ts[i := appendSub (ts ! i) x])) =
         mset (forest_leveled k ts) + mset (leveled (Suc k) x)"
  by (rule forest_leveled_update [OF assms]) (simp add: leveled_appendSub)

lemma attach2:
  assumes "i < length ts" "j < length (SubAreas (ts ! i))"
  shows "mset (forest_leveled k
           (ts[i := setSubs (ts ! i) ((SubAreas (ts ! i))[j := appendSub (SubAreas (ts ! i) ! j) x])])) =
         mset (forest_leveled k ts) + mset (leveled (Suc (Suc k)) x)"
  by (rule forest_leveled_update [OF assms(1)])
     (simp add: leveled_setSubs attach1 [OF assms(2)] leveled_unfold [of k "ts ! i"])

lemma attach3:
  assumes "i < length ts" "j < length (SubAreas (ts ! i))"
    "h < length (SubAreas (SubAreas (ts ! i) ! j))"
  shows "mset (forest_leveled k
           (ts[i := setSubs (ts ! i) ((SubAreas (ts ! i))[j :=
              setSubs (SubAreas (ts ! i) ! j)
                ((SubAreas (SubAreas (ts ! i) ! j))[h :=
                   appendSub (SubAreas (SubAreas (ts ! i) ! j) ! h) x])])])) =
         mset (forest_leveled k ts) + mset (leveled (Suc (Suc (Suc k))) x)"
  by (rule forest_leveled_update [OF assms(1)])
     (simp add: leveled_setSubs attach2 [OF assms(2,3)] leveled_unfold [of k "ts ! i"])

lemma cityStep_leveled:
  assumes "cityStep spare po (trees, co) c = Inr (trees', co')"
  shows "mset (forest_leveled k trees') = mset (forest_leveled k trees) + {#(flat_fields c, Suc k)#}"
  using assms
  by (auto simp: cityStep_def at_Inr Let_def attach1 leveled_newArea flat_fields_def
      split: sum.splits)

lemma areaStep_leveled:
  assumes "areaStep spare po co (trees, ao) a = Inr (trees', ao')"
  shows "mset (forest_leveled k trees') =
         mset (forest_leveled k trees) + {#(flat_fields a, Suc (Suc k))#}"
  using assms
  by (auto simp: areaStep_def at_Inr Let_def attach2 leveled_newArea flat_fields_def
      split: sum.splits)

lemma streetStep_leveled:
  assumes "streetStep spare po co ao trees s = Inr trees'"
  shows "mset (forest_leveled k trees') =
         mset (forest_leveled k trees) + {#(flat_fields s, Suc (Suc (Suc k)))#}"
  using assms
  by (auto simp: streetStep_def at_Inr Let_def attach3 leveled_newArea flat_fields_def
      split: sum.splits)

lemma loop_adds:
  assumes step: "\<And>s x s'. body s x = Inr s' \<Longrightarrow> I s' = I s + {#g x#}"
    and run: "loop body s xs = Inr s'"
  shows "I s' = I s + mset (map g xs)"
  using run
proof (induction xs arbitrary: s)
  case Nil
  then show ?case by simp
next
  case (Cons x xs)
  then obtain s1 where a: "body s x = Inr s1" and b: "loop body s1 xs = Inr s'"
    by (auto split: sum.splits)
  from step [OF a] Cons.IH [OF b] show ?case by simp
qed

lemma loop_keeps:
  assumes step: "\<And>s x s'. body s x = Inr s' \<Longrightarrow> J s' = J s"
    and run: "loop body s xs = Inr s'"
  shows "J s' = J s"
  using run
proof (induction xs arbitrary: s)
  case Nil
  then show ?case by simp
next
  case (Cons x xs)
  then obtain s1 where a: "body s x = Inr s1" and b: "loop body s1 xs = Inr s'"
    by (auto split: sum.splits)
  from step [OF a] Cons.IH [OF b] show ?case by simp
qed

lemma map_fields_update:
  assumes "node_fields t' = node_fields (ts ! i)"
  shows "map node_fields (ts[i := t']) = map node_fields ts"
proof (cases "i < length ts")
  case True
  with assms show ?thesis by (simp add: map_update list_update_same_conv)
next
  case False
  then show ?thesis by (simp add: list_update_beyond)
qed

lemma cityStep_roots:
  "cityStep spare po (trees, co) c = Inr (trees', co') \<Longrightarrow> map node_fields trees' = map node_fields trees"
  by (auto simp: cityStep_def at_Inr Let_def map_fields_update split: sum.splits)

lemma areaStep_roots:
  "areaStep spare po co (trees, ao) a = Inr (trees', ao') \<Longrightarrow> map node_fields trees' = map node_fields trees"
  by (auto simp: areaStep_def at_Inr Let_def map_fields_update split: sum.splits)

lemma streetStep_roots:
  "streetStep spare po co ao trees s = Inr trees' \<Longrightarrow> map node_fields trees' = map node_fields trees"
  by (auto simp: streetStep_def at_Inr Let_def map_fields_update split: sum.splits)

lemma provinceLoop_trees:
  "fst (provinceLoop i ps (trees, po)) =
     trees @ map (\<lambda>p. newArea (flat_Code p) (flat_Name p) ''0'') ps"
  by (induction ps arbitrary: i trees po) simp_all

lemma forest_leveled_provinces:
  "forest_leveled k (map (\<lambda>p. newArea (flat_Code p) (flat_Name p) ''0'') ps) =
     map (\<lambda>p. (province_fields p, k)) ps"
  by (induction ps) (simp_all add: leveled_newArea province_fields_def)

lemma node_fields_newArea [simp]: "node_fields (newArea c n pc) = (c, n, pc)"
  by (simp add: node_fields_def newArea_def)

lemma buildTrees_phases:
  assumes "buildTrees spare ps cs as ss = Inr ts"
  obtains po t1 co t2 ao where
    "provinceLoop 0 ps ([], Map.empty) =
       (map (\<lambda>p. newArea (flat_Code p) (flat_Name p) ''0'') ps, po)"
    "loop (cityStep spare po)
       (map (\<lambda>p. newArea (flat_Code p) (flat_Name p) ''0'') ps, Map.empty) cs = Inr (t1, co)"
    "loop (areaStep spare po co) (t1, Map.empty) as = Inr (t2, ao)"
    "loop (streetStep spare po co ao) t2 ss = Inr ts"
proof -
  obtain t0 po where a: "provinceLoop 0 ps ([], Map.empty) = (t0, po)"
    by (cases "provinceLoop 0 ps ([], Map.empty)")
  with provinceLoop_trees [of 0 ps "[]" Map.empty]
  have t0: "t0 = map (\<lambda>p. newArea (flat_Code p) (flat_Name p) ''0'') ps" by simp
  from assms a obtain t1 co t2 ao where
    "loop (cityStep spare po) (t0, Map.empty) cs = Inr (t1, co)"
    "loop (areaStep spare po co) (t1, Map.empty) as = Inr (t2, ao)"
    "loop (streetStep spare po co ao) t2 ss = Inr ts"
    by (auto simp: buildTrees_def split: sum.splits prod.splits)
  with a t0 that show thesis by blast
qed

lemma buildTrees_leveled:
  assumes "buildTrees spare ps cs as ss = Inr ts"
  shows "mset (forest_leveled k ts) =
     mset (map (\<lambda>p. (province_fields p, k)) ps) +
     mset (map (\<lambda>c. (flat_fields c, Suc k)) cs) +
     mset (map (\<lambda>a. (flat_fields a, Suc (Suc k))) as) +
     mset (map (\<lambda>s. (flat_fields s, Suc (Suc (Suc k)))) ss)"
proof -
  from assms obtain po t1 co t2 ao where
    c: "loop (cityStep spare po)
       (map (\<lambda>p. newArea (flat_Code p) (flat_Name p) ''0'') ps, Map.empty) cs = Inr (t1, co)"
    and a: "loop (areaStep spare po co) (t1, Map.empty) as = Inr (t2, ao)"
    and s: "loop (streetStep spare po co ao) t2 ss = Inr ts"
    by (rule buildTrees_phases)
  have "mset (forest_leveled k t1) =
      mset (map (\<lambda>p. (province_fields p, k)) ps) + mset (map (\<lambda>c. (flat_fields c, Suc k)) cs)"
    using loop_adds [where I = "\<lambda>st. mset (forest_leveled k (fst st))"
        and g = "\<lambda>c. (flat_fields c, Suc k)", OF _ c]
    by (auto simp: cityStep_leveled forest_leveled_provinces)
  moreover have "mset (forest_leveled k t2) =
      mset (forest_leveled k t1) + mset (map (\<lambda>a. (flat_fields a, Suc (Suc k))) as)"
    using loop_adds [where I = "\<lambda>st. mset (forest_leveled k (fst st))"
        and g = "\<lambda>a. (flat_fields a, Suc (Suc k))", OF _ a]
    by (auto simp: areaStep_leveled)
  moreover have "mset (forest_leveled k ts) =
      mset (forest_leveled k t2) + mset (map (\<lambda>s. (flat_fields s, Suc (Suc (Suc k)))) ss)"
    using loop_adds [where I = "\<lambda>t. mset (forest_leveled k t)"
        and g = "\<lambda>s. (flat_fields s, Suc (Suc (Suc k)))", OF _ s]
    by (auto simp: streetStep_leveled)
  ultimately show ?thesis by simp
qed

lemma buildTrees_roots:
  assumes "buildTrees spare ps cs as ss = Inr ts"
  shows "map node_fields ts = map province_fields ps"
proof -
  from assms obtain po t1 co t2 ao where
    c: "loop (cityStep spare po)
       (map (\<lambda>p. newArea (flat_Code p) (flat_Name p) ''0'') ps, Map.empty) cs = Inr (t1, co)"
    and a: "loop (areaStep spare po co) (t1, Map.empty) as = Inr (t2, ao)"
    and s: "loop (streetStep spare po co ao) t2 ss = Inr ts"
    by (rule buildTrees_phases)
  have "map node_fields t1 = map province_fields ps"
    using loop_keeps [where J = "\<lambda>st. map node_fields (fst st)", OF _ c]
    by (auto simp: cityStep_roots province_fields_def)
  moreover have "map node_fields t2 = map node_fields t1"
    using loop_keeps [where J = "\<lambda>st. map node_fields (fst st)", OF _ a]
    by (auto simp: areaStep_roots)
  moreover have "map node_fields ts = map node_fields t2"
    using loop_keeps [where J = "map node_fields", OF _ s]
    by (auto simp: streetStep_roots)
  ultimately show ?thesis by simp
qed

lemma length_leveled:
  "length (leveled k t) = node_count t"
  by (induction k t rule: leveled.induct)
     (simp add: forest_count_sum length_concat o_def cong: map_cong)

lemma length_forest_leveled: "length (forest_leveled k ts) = forest_count ts"
  by (induction ts) (simp_all add: length_leveled)

lemma buildTrees_count:
  assumes "buildTrees spare ps cs as ss = Inr ts"
  shows "forest_count ts = length ps + length cs + length as + length ss"
proof -
  have "forest_count ts = size (mset (forest_leveled 0 ts))"
    by (simp add: length_forest_leveled)
  also have "\<dots> = length ps + length cs + length as + length ss"
    by (simp add: buildTrees_leveled [OF assms])
  finally show ?thesis .
qed

subsection \<open>A forest of childless provinces\<close>

lemma buildTrees_provinces_only:
  "buildTrees spare ps [] [] [] = Inr (map (\<lambda>p. newArea (flat_Code p) (flat_Name p) ''0'') ps)"
proof -
  obtain t0 po where a: "provinceLoop 0 ps ([], Map.empty) = (t0, po)"
    by (cases "provinceLoop 0 ps ([], Map.empty)")
  with provinceLoop_trees [of 0 ps "[]" Map.empty]
  have "t0 = map (\<lambda>p. newArea (flat_Code p) (flat_Name p) ''0'') ps" by simp
  with a show ?thesis by (simp add: buildTrees_def)
qed

lemma indexSubs_leaves:
  "indexSubs (replicate n (Area c nm pc l r [])) s =
     (map (\<lambda>i. Area c nm pc (s + of_nat (2 * i + 1)) (s + of_nat (2 * i + 2)) []) [0..<n],
      s + of_nat (2 * n))"
proof (induction n arbitrary: s)
  case 0
  show ?case by simp
next
  case (Suc n)
  have "[0..<Suc n] = 0 # map Suc [0..<n]"
    by (simp add: upt_conv_Cons map_Suc_upt del: upt_Suc)
  then show ?case
    by (simp add: Suc.IH o_def Let_def algebra_simps del: upt_Suc)
qed

lemma assignKeys_leaves:
  "assignKeys (replicate n (newArea c nm pc)) =
     map (\<lambda>i. Area c nm pc (of_nat (2 * i + 1)) (of_nat (2 * i + 2)) []) [0..<n]"
  by (simp add: assignKeys_def assignLoop_indexSubs newArea_def indexSubs_leaves)

lemma last_assignKeys_leaves:
  "0 < n \<Longrightarrow> last (assignKeys (replicate n (newArea c nm pc))) =
     Area c nm pc (of_nat (2 * n - 1)) (of_nat (2 * n)) []"
proof -
  assume "0 < n"
  then obtain m where m: "n = Suc m" by (cases n) auto
  show ?thesis unfolding assignKeys_leaves m by simp
qed


subsection \<open>The emitter\<close>

lemma sql_of_statement: "sql_of (Area c n pc l r subs) depth = statement (c, n, pc, depth, l, r)"
  by (simp add: sql_of_def insertPrefix_def tblName_def)

declare statement.simps [simp del]

lemma genSQL_appends:
  "genSQL accepts f t d = Inr f' \<Longrightarrow> f' = f @ map statement (records d t)"
  "genSQL_subs accepts f ts d = Inr f' \<Longrightarrow> f' = f @ map statement (concat (map (records d) ts))"
proof (induction accepts f t d and accepts f ts d arbitrary: f' and f'
       rule: genSQL_genSQL_subs.induct)
  case (1 accepts f c n pc l r subs depth)
  from 1(2) have ok: "accepts f (sql_of (Area c n pc l r subs) depth)"
    and run: "genSQL_subs accepts (f @ [sql_of (Area c n pc l r subs) depth]) subs (depth + 1) = Inr f'"
    by (simp_all add: Let_def split: if_splits)
  from 1(1) [OF refl ok run] show ?case
    by (simp add: sql_of_statement)
next
  case (2 accepts f depth)
  then show ?case by simp
next
  case (3 accepts f sub subs depth)
  from 3(3) obtain f1 where a: "genSQL accepts f sub depth = Inr f1"
    and b: "genSQL_subs accepts f1 subs depth = Inr f'"
    by (auto split: sum.splits)
  from 3(1) [OF a] 3(2) [OF a b] show ?case by simp
qed

lemma genSQL_completes:
  "\<forall>f s. accepts f s \<Longrightarrow> genSQL accepts f t d = Inr (f @ map statement (records d t))"
  "\<forall>f s. accepts f s \<Longrightarrow>
     genSQL_subs accepts f ts d = Inr (f @ map statement (concat (map (records d) ts)))"
proof (induction accepts f t d and accepts f ts d rule: genSQL_genSQL_subs.induct)
  case (1 accepts f c n pc l r subs depth)
  from 1(2) have ok: "accepts f (sql_of (Area c n pc l r subs) depth)" by simp
  from 1(1) [OF refl ok 1(2)] ok show ?case
    by (simp add: sql_of_statement Let_def)
next
  case (2 accepts f depth)
  then show ?case by simp
next
  case (3 accepts f sub subs depth)
  from 3(1) [OF 3(3)] 3(2) [OF _ 3(3)] show ?case by simp
qed

lemma genSQL_trees_appends:
  "genSQL_trees accepts f trees = Inr f' \<Longrightarrow> f' = f @ map statement (forest_records trees)"
proof (induction trees arbitrary: f)
  case Nil
  then show ?case by (simp add: forest_records_def)
next
  case (Cons p trees)
  from Cons.prems obtain f1 where a: "genSQL accepts f p 1 = Inr f1"
    and b: "genSQL_trees accepts f1 trees = Inr f'"
    by (auto split: sum.splits)
  from genSQL_appends(1) [OF a] Cons.IH [OF b] show ?case
    by (simp add: forest_records_def)
qed

lemma genSQL_trees_completes:
  "\<forall>f s. accepts f s \<Longrightarrow>
     genSQL_trees accepts f trees = Inr (f @ map statement (forest_records trees))"
  by (induction trees arbitrary: f) (simp_all add: forest_records_def genSQL_completes)

lemma genSQLFile_file:
  "genSQLFile created accepts trees = Inr out \<Longrightarrow> out = map statement (forest_records trees)"
  using genSQL_trees_appends [of accepts "[]" trees out]
  by (simp add: genSQLFile_def split: if_splits)

lemma genSQLFile_completes:
  "created \<Longrightarrow> \<forall>f s. accepts f s \<Longrightarrow>
     genSQLFile created accepts trees = Inr (map statement (forest_records trees))"
  by (simp add: genSQLFile_def genSQL_trees_completes)

lemma records_leveled:
  "d = of_nat k \<Longrightarrow>
     map unleveled (records d t) = map (\<lambda>(f, j). (f, of_nat j)) (leveled k t)"
proof (induction d t arbitrary: k rule: records.induct)
  case (1 depth c n pc l r subs)
  have "map unleveled (records (depth + 1) sub) =
        map (\<lambda>(f, j). (f, of_nat j)) (leveled (Suc k) sub)" if "sub \<in> set subs" for sub
    using 1(1) [OF that, of "Suc k"] 1(2) by simp
  then show ?case using 1(2)
    by (simp add: map_concat o_def cong: map_cong)
qed

lemma forest_records_leveled:
  "map unleveled (forest_records trees) =
     map (\<lambda>(f, j). (f, of_nat j)) (forest_leveled 1 trees)"
  by (simp add: forest_records_def forest_leveled_def map_concat o_def
      records_leveled [where k = 1 and d = 1])

lemma records_nodes: "map undepth (records d t) = map node_row (nodes_of t)"
proof (induction d t rule: records.induct)
  case (1 depth c n pc l r subs)
  have "map undepth (records (depth + 1) sub) = node_row sub # map node_row (descendants sub)"
    if "sub \<in> set subs" for sub
    using 1 [OF that] by (simp add: nodes_of_def)
  then show ?case
    by (simp add: nodes_of_def map_concat o_def node_row_def cong: map_cong)
qed

lemma forest_records_nodes:
  "map undepth (forest_records trees) = map node_row (forest_nodes trees)"
  by (simp add: forest_records_def forest_nodes_def map_concat o_def records_nodes)

lemma leveled_unkeyed: "leveled k (unkeyed t) = leveled k t"
  by (induction k t rule: leveled.induct) (simp add: o_def cong: map_cong)

lemma forest_leveled_unkeyed: "forest_leveled k (map unkeyed ts) = forest_leveled k ts"
  by (simp add: forest_leveled_def o_def leveled_unkeyed)

lemma forest_leveled_assignKeys: "forest_leveled k (assignKeys ts) = forest_leveled k ts"
proof -
  have "map unkeyed (assignKeys ts) = map unkeyed ts"
    by (simp add: assignKeys_def assignLoop_indexSubs index_unkeyed)
  then show ?thesis by (metis forest_leveled_unkeyed)
qed

lemma length_forest_records: "length (forest_records trees) = forest_count trees"
  using arg_cong [OF forest_records_nodes [of trees], of length]
  by (simp add: forest_count_def)

lemma emitted_levels:
  assumes "buildTrees spare ps cs as ss = Inr trees"
  shows "mset (map unleveled (forest_records (assignKeys trees))) =
     mset (map (\<lambda>p. (province_fields p, 1)) ps) +
     mset (map (\<lambda>c. (flat_fields c, 2)) cs) +
     mset (map (\<lambda>a. (flat_fields a, 3)) as) +
     mset (map (\<lambda>s. (flat_fields s, 4)) ss)"
proof -
  have "mset (map unleveled (forest_records (assignKeys trees))) =
      image_mset (\<lambda>(f, j). (f, of_nat j)) (mset (forest_leveled 1 trees))"
    by (simp add: forest_records_leveled forest_leveled_assignKeys)
  also have "\<dots> = mset (map (\<lambda>p. (province_fields p, 1)) ps) +
     mset (map (\<lambda>c. (flat_fields c, 2)) cs) +
     mset (map (\<lambda>a. (flat_fields a, 3)) as) +
     mset (map (\<lambda>s. (flat_fields s, 4)) ss)"
    unfolding buildTrees_leveled [OF assms]
    by (simp add: o_def multiset.map_comp)
  finally show ?thesis .
qed

subsection \<open>The example of the specification\<close>

lemmas build_defs =
  buildTrees_def cityStep_def areaStep_def streetStep_def getProvince_def getCity_def
  getArea_def slice_to_def copy_bytes_def lookup_def at_def newArea_def appendSub_def
  setSubs_def

lemmas example_defs =
  example_province_def example_city_def example_area_def example_street_def

lemma example_build:
  "buildTrees spare [example_province] [example_city] [example_area] [example_street] =
     Inr example_forest"
  by (simp add: build_defs example_defs example_forest_def)

lemma example_assign: "assignKeys example_forest = example_indexed"
  by (simp add: assignKeys_def example_forest_def example_indexed_def)

lemma example_records:
  "forest_records example_indexed =
     [(''11'', ''A'', ''0'', 1, 1, 8), (''1101'', ''B'', ''11'', 2, 2, 7),
      (''110101'', ''C'', ''1101'', 3, 3, 6), (''1101010001'', ''D'', ''110101'', 4, 4, 5)]"
  by (simp add: forest_records_def example_indexed_def)

lemma itoa_digit:
  "itoa 0 = ''0''" "itoa 1 = ''1''" "itoa 2 = ''2''" "itoa 3 = ''3''" "itoa 4 = ''4''"
  "itoa 5 = ''5''" "itoa 6 = ''6''" "itoa 7 = ''7''" "itoa 8 = ''8''"
  by (simp_all add: itoa_def)

lemma example_statements:
  "statement (''11'', ''A'', ''0'', 1, 1, 8) =
     ''INSERT INTO nested(id, node, pid, depth, lft, rgt) VALUES(11, 'A', 0, 1, 1, 8);\<newline>''"
  "statement (''1101'', ''B'', ''11'', 2, 2, 7) =
     ''INSERT INTO nested(id, node, pid, depth, lft, rgt) VALUES(1101, 'B', 11, 2, 2, 7);\<newline>''"
  "statement (''110101'', ''C'', ''1101'', 3, 3, 6) =
     ''INSERT INTO nested(id, node, pid, depth, lft, rgt) VALUES(110101, 'C', 1101, 3, 3, 6);\<newline>''"
  "statement (''1101010001'', ''D'', ''110101'', 4, 4, 5) =
     ''INSERT INTO nested(id, node, pid, depth, lft, rgt) VALUES(1101010001, 'D', 110101, 4, 4, 5);\<newline>''"
  by (simp_all add: statement.simps itoa_digit)

subsection \<open>The claims on the forest and its emission\<close>

text \<open>
  Claim C4. For the one province 11 "A", the one city 1101 "B", the one area 110101 "C" and
  the one street 1101010001 "D" of the specification's example, the program writes four
  statements, for A, B, C, D in this order, whose records
  \<open>(code, name, parentCode, depth, left, right)\<close> have depth, left and right
  \<open>(1, 1, 8)\<close>, \<open>(2, 2, 7)\<close>, \<open>(3, 3, 6)\<close> and \<open>(4, 4, 5)\<close>.
\<close>

theorem example_emission:
  "main spare True sink_ok
     [\<lparr>flat_Code = ''11'', flat_Name = ''A'', flat_ParentCode = []\<rparr>]
     [\<lparr>flat_Code = ''1101'', flat_Name = ''B'', flat_ParentCode = ''11''\<rparr>]
     [\<lparr>flat_Code = ''110101'', flat_Name = ''C'', flat_ParentCode = ''1101''\<rparr>]
     [\<lparr>flat_Code = ''1101010001'', flat_Name = ''D'', flat_ParentCode = ''110101''\<rparr>] =
   Inr (map statement
     [(''11'', ''A'', ''0'', 1, 1, 8), (''1101'', ''B'', ''11'', 2, 2, 7),
      (''110101'', ''C'', ''1101'', 3, 3, 6), (''1101010001'', ''D'', ''110101'', 4, 4, 5)]) \<and>
   map statement
     [(''11'', ''A'', ''0'', 1, 1, 8), (''1101'', ''B'', ''11'', 2, 2, 7),
      (''110101'', ''C'', ''1101'', 3, 3, 6), (''1101010001'', ''D'', ''110101'', 4, 4, 5)] =
     [''INSERT INTO nested(id, node, pid, depth, lft, rgt) VALUES(11, 'A', 0, 1, 1, 8);\<newline>'',
      ''INSERT INTO nested(id, node, pid, depth, lft, rgt) VALUES(1101, 'B', 11, 2, 2, 7);\<newline>'',
      ''INSERT INTO nested(id, node, pid, depth, lft, rgt) VALUES(110101, 'C', 1101, 3, 3, 6);\<newline>'',
      ''INSERT INTO nested(id, node, pid, depth, lft, rgt) VALUES(1101010001, 'D', 110101, 4, 4, 5);\<newline>'']"
proof -
  have accepts: "\<forall>f sql. sink_ok f sql" by (simp add: sink_ok_def)
  have "main spare True sink_ok [example_province] [example_city] [example_area] [example_street] =
      Inr (map statement (forest_records example_indexed))"
    using genSQLFile_completes [OF TrueI accepts, of example_indexed]
    by (simp add: main_def example_build example_assign at_def example_indexed_def)
  then show ?thesis
    using example_statements by (simp add: example_defs example_records)
qed

lemma roots_in_forest_nodes: "t \<in> set ts \<Longrightarrow> t \<in> set (forest_nodes ts)"
  by (auto simp: forest_nodes_def nodes_of_def)


lemma leaves_overflow:
  assumes n: "2 * n = (2 :: nat) ^ 31"
  shows "buildTrees spare (replicate n nameless) [] [] [] = Inr (replicate n (newArea [] [] ''0''))"
    and "sint (Left (last (assignKeys (replicate n (newArea c nm pc))))) = 2147483647"
    and "sint (Right (last (assignKeys (replicate n (newArea c nm pc))))) = - 2147483648"
    and "\<not> nested_set (assignKeys (replicate n (newArea c nm pc)))"
proof -
  let ?ts = "assignKeys (replicate n (newArea c nm pc))"
  show "buildTrees spare (replicate n nameless) [] [] [] = Inr (replicate n (newArea [] [] ''0''))"
    by (simp add: buildTrees_provinces_only nameless_def)
  have pos: "0 < n" using n by (cases n) simp_all
  have l: "last ?ts = Area c nm pc (of_nat (2 * n - 1)) (of_nat (2 * n)) []"
    by (rule last_assignKeys_leaves [OF pos])
  show lv: "sint (Left (last ?ts)) = 2147483647"
    unfolding l n by simp
  show rv: "sint (Right (last ?ts)) = - 2147483648"
    unfolding l n by simp
  have "?ts \<noteq> []" using pos by (simp add: assignKeys_leaves)
  then have "last ?ts \<in> set (forest_nodes ?ts)"
    by (simp add: roots_in_forest_nodes)
  moreover have "\<not> children_nested (last ?ts)"
    using lv rv by (simp add: children_nested_def)
  ultimately show "\<not> nested_set ?ts"
    unfolding nested_set_def by blast
qed


lemma example_nodes:
  "forest_nodes example_indexed =
     [Area ''11'' ''A'' ''0'' 1 8
       [Area ''1101'' ''B'' ''11'' 2 7
         [Area ''110101'' ''C'' ''1101'' 3 6 [Area ''1101010001'' ''D'' ''110101'' 4 5 []]]],
      Area ''1101'' ''B'' ''11'' 2 7
        [Area ''110101'' ''C'' ''1101'' 3 6 [Area ''1101010001'' ''D'' ''110101'' 4 5 []]],
      Area ''110101'' ''C'' ''1101'' 3 6 [Area ''1101010001'' ''D'' ''110101'' 4 5 []],
      Area ''1101010001'' ''D'' ''110101'' 4 5 []]"
  by (simp add: example_indexed_def forest_nodes_def nodes_of_def)


text \<open>
  Claim C1, amended with the bound under which the 32-bit counter does not wrap. When the
  input has fewer than \<open>2 ^ 30\<close> records, so that twice their number is at most
  \<open>2 ^ 31 - 1\<close>, then after \<open>assignKeys\<close> on the forest of \<open>buildTrees\<close> every node has
  \<open>Left < Right\<close>, its children lie in build order strictly inside its range, each before
  the next, and every node encloses each of its descendants.
\<close>

theorem nested_set_after_assignKeys:
  assumes "buildTrees spare provinces cities areas streets = Inr trees"
    and "2 * (length provinces + length cities + length areas + length streets) < 2 ^ 31"
  shows "nested_set (assignKeys trees)"
  using assignKeys_nested_set [of trees] assms
  by (simp add: buildTrees_count [OF assms(1)])


theorem nested_set_after_assignKeys_witness:
  "buildTrees no_spare [example_province] [example_city] [example_area] [example_street] =
     Inr example_forest \<and>
   2 * (length [example_province] + length [example_city] + length [example_area] +
        length [example_street]) < (2 :: nat) ^ 31 \<and>
   assignKeys example_forest = example_indexed \<and>
   length (forest_nodes example_indexed) = 4 \<and>
   nested_set example_indexed"
proof -
  have b: "buildTrees no_spare [example_province] [example_city] [example_area] [example_street] =
     Inr example_forest" by (rule example_build)
  have n: "2 * (length [example_province] + length [example_city] + length [example_area] +
        length [example_street]) < (2 :: nat) ^ 31" by simp
  from nested_set_after_assignKeys [OF b n] b n show ?thesis
    by (simp add: example_assign example_nodes)
qed


text \<open>
  Claim C1 as stated, without a bound, fails: \<open>2 ^ 30\<close> provinces without children are a
  forest of \<open>2 ^ 30\<close> roots; the last root gets \<open>Left = 2 ^ 31 - 1\<close>, and its \<open>Right\<close>
  wraps around to \<open>- 2 ^ 31\<close>.
\<close>

theorem nested_set_overflow:
  "buildTrees no_spare (replicate (2 ^ 30) nameless) [] [] [] =
     Inr (replicate (2 ^ 30) (newArea [] [] ''0'')) \<and>
   sint (Left (last (assignKeys (replicate (2 ^ 30) (newArea [] [] ''0''))))) = 2147483647 \<and>
   sint (Right (last (assignKeys (replicate (2 ^ 30) (newArea [] [] ''0''))))) = - 2147483648 \<and>
   \<not> nested_set (assignKeys (replicate (2 ^ 30) (newArea [] [] ''0'')))"
proof -
  have n: "2 * 2 ^ 30 = (2 :: nat) ^ 31" by simp
  from leaves_overflow [OF n] show ?thesis by blast
qed


text \<open>
  Claim C10. \<open>buildTrees\<close> gives every province root the code and the name of its
  record and the parent code "0", whatever parent code the record has; the nodes of the
  second, third and fourth level are the city, area and street records, each once, with
  code, name and parent code as in the record.
\<close>

theorem buildTrees_copies_fields:
  assumes "buildTrees spare provinces cities areas streets = Inr trees"
  shows "map node_fields trees = map province_fields provinces \<and>
     mset (forest_leveled 1 trees) =
       mset (map (\<lambda>p. (province_fields p, 1)) provinces) +
       mset (map (\<lambda>c. (flat_fields c, 2)) cities) +
       mset (map (\<lambda>a. (flat_fields a, 3)) areas) +
       mset (map (\<lambda>s. (flat_fields s, 4)) streets)"
  using buildTrees_roots [OF assms] buildTrees_leveled [OF assms, of 1]
  by (simp add: numeral_2_eq_2 numeral_3_eq_3 eval_nat_numeral)


theorem buildTrees_copies_fields_witness:
  "buildTrees no_spare
     [\<lparr>flat_Code = ''11'', flat_Name = ''A'', flat_ParentCode = ''86''\<rparr>]
     [example_city] [example_area] [example_street] = Inr example_forest \<and>
   map node_fields example_forest = [(''11'', ''A'', ''0'')] \<and>
   mset (forest_leveled 1 example_forest) =
     {#((''11'', ''A'', ''0''), 1), ((''1101'', ''B'', ''11''), 2),
       ((''110101'', ''C'', ''1101''), 3), ((''1101010001'', ''D'', ''110101''), 4)#}"
proof -
  have b: "buildTrees no_spare
     [\<lparr>flat_Code = ''11'', flat_Name = ''A'', flat_ParentCode = ''86''\<rparr>]
     [example_city] [example_area] [example_street] = Inr example_forest"
    by (simp add: build_defs example_defs example_forest_def)
  from buildTrees_copies_fields [OF b] b show ?thesis
    by (simp add: province_fields_def flat_fields_def example_defs)
qed

subsection \<open>The keys are the numbers from 1 to twice the number of nodes\<close>

lemma forest_keys_simps [simp]:
  "forest_keys [] = []"
  "forest_keys (t # ts) = keys t @ forest_keys ts"
  by (simp_all add: forest_keys_def)

lemma keys_unfold: "keys t = Left t # forest_keys (SubAreas t) @ [Right t]"
  by (cases t) (simp add: forest_keys_def)

lemma upt_wrap:
  "[a ..< Suc (Suc (a + b))] = a # [Suc a ..< Suc (a + b)] @ [Suc (a + b)]"
proof -
  have "[a ..< Suc (Suc (a + b))] = [a ..< Suc (a + b)] @ [Suc (a + b)]"
    by (rule upt_Suc_append) simp
  moreover have "[a ..< Suc (a + b)] = a # [Suc a ..< Suc (a + b)]"
    by (rule upt_conv_Cons) simp
  ultimately show ?thesis by (simp only: append_Cons)
qed

lemma keyed_list_keys:
  "keyed_list k ts \<Longrightarrow> forest_keys ts = map of_nat [Suc k ..< Suc (k + 2 * forest_count ts)]"
proof (induction "forest_count ts" arbitrary: k ts rule: less_induct)
  case less
  show ?case
  proof (cases ts)
    case Nil
    then show ?thesis by simp
  next
    case (Cons t us)
    with less.prems have kt: "keyed k t" and kus: "keyed_list (k + 2 * node_count t) us"
      by simp_all
    let ?m = "forest_count (SubAreas t)"
    let ?e = "k + 2 * node_count t"
    have cnt: "node_count t = Suc ?m" by (rule node_count_SubAreas)
    have sub: "keyed_list (Suc k) (SubAreas t)" using kt keyed_fields by force
    have lt1: "?m < forest_count ts" using Cons by (simp add: cnt)
    have lt2: "forest_count us < forest_count ts"
      using Cons node_count_pos [of t] by simp
    have e: "?e = Suc (Suc k + 2 * ?m)" by (simp add: cnt)
    have inner: "forest_keys (SubAreas t) = map of_nat [Suc (Suc k) ..< Suc (Suc k + 2 * ?m)]"
      by (rule less.hyps [OF lt1 sub])
    have outer: "forest_keys us = map of_nat [Suc ?e ..< Suc (?e + 2 * forest_count us)]"
      by (rule less.hyps [OF lt2 kus])
    have lr: "Left t = of_nat (Suc k)" "Right t = of_nat ?e"
      using keyed_fields [OF kt] by simp_all
    have "keys t = map of_nat (Suc k # [Suc (Suc k) ..< Suc (Suc k + 2 * ?m)] @ [?e])"
      unfolding keys_unfold [of t] inner lr by simp
    also have "Suc k # [Suc (Suc k) ..< Suc (Suc k + 2 * ?m)] @ [?e] = [Suc k ..< Suc ?e]"
      unfolding e by (rule upt_wrap [symmetric])
    finally have kt': "keys t = map of_nat [Suc k ..< Suc ?e]" .
    have "[Suc k ..< Suc ?e + 2 * forest_count us] =
        [Suc k ..< Suc ?e] @ [Suc ?e ..< Suc ?e + 2 * forest_count us]"
      by (rule upt_add_eq_append) simp
    moreover have "Suc ?e + 2 * forest_count us = Suc (k + 2 * forest_count ts)"
      using Cons by simp
    moreover have "Suc ?e + 2 * forest_count us = Suc (?e + 2 * forest_count us)"
      by simp
    ultimately have "[Suc k ..< Suc (k + 2 * forest_count ts)] =
        [Suc k ..< Suc ?e] @ [Suc ?e ..< Suc (?e + 2 * forest_count us)]"
      by (simp only:)
    then show ?thesis
      unfolding Cons forest_keys_simps kt' outer by (simp only: map_append)
  qed
qed

lemma map_sint_of_nat:
  assumes "n \<le> 2 ^ 31"
  shows "map sint (map (of_nat :: nat \<Rightarrow> int32) [m..<n]) = map int [m..<n]"
proof -
  have "map (\<lambda>x. sint (of_nat x :: int32)) [m..<n] = map int [m..<n]"
    by (rule map_cong [OF refl]) (use assms in \<open>simp add: sint_of_nat_small\<close>)
  then show ?thesis by (simp only: map_map o_def)
qed

lemma assignKeys_keys:
  assumes "2 * forest_count trees < 2 ^ 31"
  shows "map sint (forest_keys (assignKeys trees)) = map int [1 ..< Suc (2 * forest_count trees)]"
proof -
  have "forest_keys (assignKeys trees) = map of_nat [Suc 0 ..< Suc (0 + 2 * forest_count trees)]"
    using keyed_list_keys [OF assignKeys_keyed, of trees]
    by (simp only: forest_count_assignKeys)
  moreover have "Suc (2 * forest_count trees) \<le> 2 ^ 31" using assms by simp
  ultimately show ?thesis
    using map_sint_of_nat [of "Suc (2 * forest_count trees)" 1]
    by (simp only: add_0 One_nat_def)
qed

lemma keyed_list_roots_sorted:
  "keyed_list k ts \<Longrightarrow> k + 2 * forest_count ts < 2 ^ 31 \<Longrightarrow>
     sorted_wrt (\<lambda>a b. sint (Right a) < sint (Left b)) ts"
proof (induction ts arbitrary: k)
  case Nil
  show ?case by simp
next
  case (Cons t us)
  from Cons.prems have kt: "keyed k t" and kus: "keyed_list (k + 2 * node_count t) us"
    by simp_all
  have bt: "k + 2 * node_count t < 2 ^ 31" using Cons.prems(2) by simp
  have "sint (Right t) < sint (Left u)" if "u \<in> set us" for u
  proof -
    from keyed_list_nodes [OF kus roots_in_forest_nodes [OF that]] obtain m where
      m: "keyed m u" "k + 2 * node_count t \<le> m"
        "m + 2 * node_count u \<le> k + 2 * node_count t + 2 * forest_count us"
      by blast
    have bu: "m + 2 * node_count u < 2 ^ 31" using m(3) Cons.prems(2) by simp
    show ?thesis
      using keyed_sint(2) [OF kt bt] keyed_sint(1) [OF m(1) bu] m(2) by simp
  qed
  moreover have "sorted_wrt (\<lambda>a b. sint (Right a) < sint (Left b)) us"
    using Cons.IH [OF kus] Cons.prems(2) by (simp add: add.assoc)
  ultimately show ?case by simp
qed

lemma keys_of_nodes:
  "N \<in> set (forest_nodes ts) \<Longrightarrow>
     Left N \<in> set (forest_keys ts) \<and> Right N \<in> set (forest_keys ts)"
proof (induction "forest_count ts" arbitrary: ts rule: less_induct)
  case less
  from less.prems obtain t where t: "t \<in> set ts" and "N \<in> set (nodes_of t)"
    by (auto simp: forest_nodes_def)
  then consider "N = t" | "N \<in> set (forest_nodes (SubAreas t))"
    by (auto simp: nodes_of_def descendants_SubAreas)
  then have "Left N \<in> set (keys t) \<and> Right N \<in> set (keys t)"
  proof cases
    case 1
    then show ?thesis by (simp add: keys_unfold [of t])
  next
    case 2
    have "node_count t \<le> forest_count ts"
      using t by (simp add: forest_count_sum member_le_sum_list)
    then have "forest_count (SubAreas t) < forest_count ts"
      by (simp add: node_count_SubAreas)
    from less.hyps [OF this 2] show ?thesis by (simp add: keys_unfold [of t])
  qed
  with t show ?case by (auto simp: forest_keys_def)
qed

text \<open>
  Claim C2, amended with the bound under which the 32-bit counter does not wrap. When the
  input has fewer than \<open>2 ^ 30\<close> records, the \<open>Left\<close> and \<open>Right\<close> values of the
  indexed forest are, as signed numbers, pairwise different and exactly the numbers from 1 to
  twice the number of records; and of two roots, the earlier one's \<open>Right\<close> is below the
  later one's \<open>Left\<close>: one counter runs through all the trees.
\<close>

theorem keys_continuous:
  assumes "buildTrees spare provinces cities areas streets = Inr trees"
    and "2 * (length provinces + length cities + length areas + length streets) < 2 ^ 31"
  shows "distinct (map sint (forest_keys (assignKeys trees))) \<and>
     set (map sint (forest_keys (assignKeys trees))) =
       {1 .. 2 * int (length provinces + length cities + length areas + length streets)} \<and>
     sorted_wrt (\<lambda>a b. sint (Right a) < sint (Left b)) (assignKeys trees)"
proof -
  let ?n = "length provinces + length cities + length areas + length streets"
  have n: "forest_count trees = ?n" by (rule buildTrees_count [OF assms(1)])
  with assms(2) have b: "2 * forest_count trees < 2 ^ 31" by simp
  have ks: "map sint (forest_keys (assignKeys trees)) = map int [1 ..< Suc (2 * ?n)]"
    using assignKeys_keys [OF b] by (simp only: n)
  have "distinct (map int [1 ..< Suc (2 * ?n)])"
    by (simp add: distinct_map del: upt_Suc)
  moreover have "set (map int [1 ..< Suc (2 * ?n)]) = {1 .. 2 * int ?n}"
  proof -
    have "set (map int [1 ..< Suc (2 * ?n)]) = int ` {1 ..< Suc (2 * ?n)}"
      by (simp only: set_map set_upt)
    also have "\<dots> = {int 1 ..< int (Suc (2 * ?n))}"
      by (rule image_int_atLeastLessThan)
    also have "\<dots> = {1 .. 2 * int ?n}"
      by auto
    finally show ?thesis .
  qed
  moreover have "sorted_wrt (\<lambda>a b. sint (Right a) < sint (Left b)) (assignKeys trees)"
    using keyed_list_roots_sorted [OF assignKeys_keyed, of trees] b
    by (simp add: forest_count_assignKeys)
  ultimately show ?thesis by (simp only: ks) 
qed

theorem keys_continuous_witness:
  "buildTrees no_spare [nameless, nameless] [] [] [] =
     Inr [newArea [] [] ''0'', newArea [] [] ''0''] \<and>
   2 * (length [nameless, nameless] + length ([] :: flatNode list) +
        length ([] :: flatNode list) + length ([] :: flatNode list)) < (2 :: nat) ^ 31 \<and>
   assignKeys [newArea [] [] ''0'', newArea [] [] ''0''] =
     [Area [] [] ''0'' 1 2 [], Area [] [] ''0'' 3 4 []] \<and>
   forest_keys [Area [] [] ''0'' 1 2 [], Area [] [] ''0'' 3 4 []] = [1, 2, 3, 4] \<and>
   distinct (map sint (forest_keys [Area [] [] ''0'' 1 2 [], Area [] [] ''0'' 3 4 []])) \<and>
   set (map sint (forest_keys [Area [] [] ''0'' 1 2 [], Area [] [] ''0'' 3 4 []])) = {1 .. 4} \<and>
   sorted_wrt (\<lambda>a b. sint (Right a) < sint (Left b))
     [Area [] [] ''0'' 1 2 [], Area [] [] ''0'' 3 4 []]"
proof -
  have b: "buildTrees no_spare [nameless, nameless] [] [] [] =
     Inr [newArea [] [] ''0'', newArea [] [] ''0'']"
    by (simp add: buildTrees_provinces_only nameless_def)
  have n: "2 * (length [nameless, nameless] + length ([] :: flatNode list) +
        length ([] :: flatNode list) + length ([] :: flatNode list)) < (2 :: nat) ^ 31"
    by simp
  have a: "assignKeys [newArea [] [] ''0'', newArea [] [] ''0''] =
     [Area [] [] ''0'' 1 2 [], Area [] [] ''0'' 3 4 []]"
    by (simp add: assignKeys_def newArea_def)
  from keys_continuous [OF b n] b n a show ?thesis
    by simp
qed

lemma leaves_keys_overflow:
  assumes n: "2 * n = (2 :: nat) ^ 31"
  shows "- 2147483648 \<in> set (map sint (forest_keys (assignKeys (replicate n (newArea c nm pc)))))"
proof -
  let ?ts = "assignKeys (replicate n (newArea c nm pc))"
  have pos: "0 < n" using n by (cases n) simp_all
  have "?ts \<noteq> []" using pos by (simp add: assignKeys_leaves)
  then have "last ?ts \<in> set (forest_nodes ?ts)"
    by (simp add: roots_in_forest_nodes)
  then have "Right (last ?ts) \<in> set (forest_keys ?ts)"
    using keys_of_nodes by blast
  then have "sint (Right (last ?ts)) \<in> set (map sint (forest_keys ?ts))"
    by simp
  then show ?thesis by (simp only: leaves_overflow(3) [OF n])
qed

text \<open>
  Claim C2 as stated, without a bound, fails: for \<open>2 ^ 30\<close> provinces without children
  the last \<open>Right\<close> is \<open>- 2 ^ 31\<close>, which is not among the numbers from 1 to
  \<open>2 * 2 ^ 30\<close>.
\<close>

theorem keys_overflow:
  "buildTrees no_spare (replicate (2 ^ 30) nameless) [] [] [] =
     Inr (replicate (2 ^ 30) (newArea [] [] ''0'')) \<and>
   - 2147483648 \<in>
     set (map sint (forest_keys (assignKeys (replicate (2 ^ 30) (newArea [] [] ''0''))))) \<and>
   set (map sint (forest_keys (assignKeys (replicate (2 ^ 30) (newArea [] [] ''0''))))) \<noteq>
     {1 .. 2 * int (2 ^ 30)}"
proof -
  have n: "2 * 2 ^ 30 = (2 :: nat) ^ 31" by simp
  let ?ks = "set (map sint (forest_keys (assignKeys (replicate (2 ^ 30) (newArea [] [] ''0'')))))"
  have m: "- 2147483648 \<in> ?ks" by (rule leaves_keys_overflow [OF n])
  have "- 2147483648 \<notin> {1 .. 2 * int (2 ^ 30)}" by simp
  with m have "?ks \<noteq> {1 .. 2 * int (2 ^ 30)}" by blast
  with m leaves_overflow(1) [OF n] show ?thesis by blast
qed

subsection \<open>What indexTree returns\<close>

lemma indexTree_returns: "snd (indexTree t s) = s + 2 * of_nat (node_count t)"
  using index_keyed_aux(1) [of s "unat s" t] by simp

lemma node_count_descendants: "node_count N = Suc (length (descendants N))"
  by (simp add: node_count_def nodes_of_def)

lemma keyed_right:
  assumes "keyed m N"
  shows "Right N = Left N + 2 * of_nat (length (descendants N)) + 1"
  using keyed_fields [OF assms] by (simp add: node_count_descendants)

lemma double_word_zero:
  assumes "d < 2 ^ 31"
  shows "(2 * of_nat d :: int32) = 0 \<longleftrightarrow> d = 0"
proof -
  have "(2 * of_nat d :: int32) = of_nat (2 * d)" by simp
  also have "\<dots> = 0 \<longleftrightarrow> 2 ^ 32 dvd 2 * d"
    by (simp add: word_of_nat_eq_0_iff del: of_nat_mult)
  also have "\<dots> \<longleftrightarrow> d = 0"
  proof
    assume "(2 :: nat) ^ 32 dvd 2 * d"
    then obtain q where "2 * d = 2 ^ 32 * q" by (auto simp: dvd_def)
    then have "d = 2 ^ 31 * q" by simp
    with assms show "d = 0" by (cases q) simp_all
  qed simp
  finally show ?thesis .
qed

lemma leaf_iff_no_descendants: "SubAreas N = [] \<longleftrightarrow> descendants N = []"
  by (cases "SubAreas N") (simp_all add: descendants_SubAreas nodes_of_def)

text \<open>
  Claim C9, amended in its last part. In 32-bit arithmetic, \<open>indexTree t s\<close> returns
  \<open>s + 2 * (number of nodes of t)\<close> for every tree and every counter; after
  \<open>assignKeys\<close> every node has \<open>Right = Left + 2 * (number of proper descendants) + 1\<close>;
  and a node with fewer than \<open>2 ^ 31\<close> proper descendants is a leaf if and only if
  \<open>Right = Left + 1\<close>.
\<close>

theorem indexTree_adds_twice_the_nodes:
  "snd (indexTree t s) = s + 2 * of_nat (node_count t) \<and>
   (\<forall>N \<in> set (forest_nodes (assignKeys trees)).
      Right N = Left N + 2 * of_nat (length (descendants N)) + 1 \<and>
      (length (descendants N) < 2 ^ 31 \<longrightarrow> (SubAreas N = [] \<longleftrightarrow> Right N = Left N + 1)))"
proof (intro conjI ballI impI)
  show "snd (indexTree t s) = s + 2 * of_nat (node_count t)"
    by (rule indexTree_returns)
next
  fix N assume "N \<in> set (forest_nodes (assignKeys trees))"
  from keyed_list_nodes [OF assignKeys_keyed this] obtain m where m: "keyed m N" by blast
  show r: "Right N = Left N + 2 * of_nat (length (descendants N)) + 1"
    by (rule keyed_right [OF m])
  assume d: "length (descendants N) < 2 ^ 31"
  have "Right N = Left N + 1 \<longleftrightarrow> (2 * of_nat (length (descendants N)) :: int32) = 0"
    unfolding r by simp
  also have "\<dots> \<longleftrightarrow> SubAreas N = []"
    using double_word_zero [OF d] by (simp add: leaf_iff_no_descendants)
  finally show "SubAreas N = [] \<longleftrightarrow> Right N = Left N + 1" by simp
qed

theorem indexTree_adds_twice_the_nodes_witness:
  "snd (indexTree (hd example_forest) 0) = 0 + 2 * of_nat (node_count (hd example_forest)) \<and>
   node_count (hd example_forest) = 4 \<and>
   hd example_indexed \<in> set (forest_nodes (assignKeys example_forest)) \<and>
   length (descendants (hd example_indexed)) = 3 \<and>
   Left (hd example_indexed) = 1 \<and> Right (hd example_indexed) = 1 + 2 * 3 + 1 \<and>
   last (forest_nodes example_indexed) \<in> set (forest_nodes (assignKeys example_forest)) \<and>
   length (descendants (last (forest_nodes example_indexed))) < 2 ^ 31 \<and>
   SubAreas (last (forest_nodes example_indexed)) = [] \<and>
   Left (last (forest_nodes example_indexed)) = 4 \<and>
   Right (last (forest_nodes example_indexed)) = 4 + 1"
proof -
  note t = indexTree_adds_twice_the_nodes [of "hd example_forest" 0 example_forest]
  have c: "node_count (hd example_forest) = 4"
    by (simp add: example_forest_def)
  have n: "hd example_indexed \<in> set (forest_nodes (assignKeys example_forest))"
    "last (forest_nodes example_indexed) \<in> set (forest_nodes (assignKeys example_forest))"
    by (simp_all add: example_assign example_nodes) (simp add: example_indexed_def)
  have d: "length (descendants (hd example_indexed)) = 3"
    "length (descendants (last (forest_nodes example_indexed))) < 2 ^ 31"
    by (simp_all add: example_nodes) (simp add: example_indexed_def)
  from t c n d show ?thesis
    by (simp add: example_nodes) (simp add: example_indexed_def)
qed

lemma city_loop_same:
  assumes "getProvince spare (flat_Code c) = Inr pCode" "lookup po pCode = 0"
  shows "\<exists>co'. loop (cityStep spare po) (p # rest, co) (replicate n c) =
     Inr (setSubs p (SubAreas p @
            replicate n (newArea (flat_Code c) (flat_Name c) (flat_ParentCode c))) # rest, co')"
proof (induction n arbitrary: p co)
  case 0
  show ?case by (cases p) (simp add: setSubs_def)
next
  case (Suc n)
  let ?new = "newArea (flat_Code c) (flat_Name c) (flat_ParentCode c)"
  have step: "cityStep spare po (p # rest, co) c =
      Inr (appendSub p ?new # rest, co(flat_Code c \<mapsto> length (SubAreas (appendSub p ?new)) - 1))"
    using assms by (simp add: cityStep_def at_def)
  from Suc [of "appendSub p ?new" "co(flat_Code c \<mapsto> length (SubAreas (appendSub p ?new)) - 1)"]
  obtain co' where "loop (cityStep spare po)
      (appendSub p ?new # rest, co(flat_Code c \<mapsto> length (SubAreas (appendSub p ?new)) - 1))
      (replicate n c) =
     Inr (setSubs (appendSub p ?new) (SubAreas (appendSub p ?new) @ replicate n ?new) # rest, co')"
    by blast
  then have "loop (cityStep spare po) (p # rest, co) (replicate (Suc n) c) =
     Inr (setSubs p (SubAreas p @ replicate (Suc n) ?new) # rest, co')"
    using step by (simp add: setSubs_def appendSub_def)
  then show ?case by blast
qed

lemma indexTree_leaves:
  "fst (indexTree (Area c nm pc l r (replicate n (Area c' nm' pc' l' r' []))) s) =
     Area c nm pc (s + 1) (s + 1 + of_nat (2 * n) + 1)
       (map (\<lambda>i. Area c' nm' pc' (s + 1 + of_nat (2 * i + 1)) (s + 1 + of_nat (2 * i + 2)) [])
          [0..<n])"
  by (simp add: indexSubs_leaves Let_def del: of_nat_mult of_nat_add)

lemma many_cities:
  "buildTrees no_spare [example_province] (replicate n example_city) [] [] =
     Inr [Area ''11'' ''A'' ''0'' 0 0 (replicate n (newArea ''1101'' ''B'' ''11''))]"
proof -
  have g: "getProvince no_spare (flat_Code example_city) = Inr ''110000''"
    by (simp add: example_city_def getProvince_def slice_to_def copy_bytes_def no_spare_def)
  have l: "lookup [''11'' \<mapsto> 0] ''110000'' = 0"
    by (simp add: lookup_def)
  from city_loop_same [OF g l, of "newArea ''11'' ''A'' ''0''" "[]" Map.empty n]
  obtain co' where "loop (cityStep no_spare [''11'' \<mapsto> 0])
      ([newArea ''11'' ''A'' ''0''], Map.empty) (replicate n example_city) =
     Inr ([Area ''11'' ''A'' ''0'' 0 0 (replicate n (newArea ''1101'' ''B'' ''11''))], co')"
    by (auto simp: setSubs_def newArea_def example_city_def)
  then show ?thesis
    by (simp add: buildTrees_def example_province_def)
qed

lemma leaf_test_generic:
  assumes n: "2 * n = (2 :: nat) ^ 32"
  shows "SubAreas (hd (assignKeys [Area c nm pc 0 0 (replicate n (newArea c' nm' pc'))])) \<noteq> []"
    and "Left (hd (assignKeys [Area c nm pc 0 0 (replicate n (newArea c' nm' pc'))])) = 1"
    and "Right (hd (assignKeys [Area c nm pc 0 0 (replicate n (newArea c' nm' pc'))])) = 2"
proof -
  have pos: "0 < n" using n by (cases n) simp_all
  have z: "(of_nat (2 * n) :: int32) = 0"
    unfolding n by simp
  have h: "hd (assignKeys [Area c nm pc 0 0 (replicate n (newArea c' nm' pc'))]) =
      fst (indexTree (Area c nm pc 0 0 (replicate n (Area c' nm' pc' 0 0 []))) 0)"
    by (simp add: assignKeys_def newArea_def split_beta del: indexTree.simps)
  show "SubAreas (hd (assignKeys [Area c nm pc 0 0 (replicate n (newArea c' nm' pc'))])) \<noteq> []"
    unfolding h indexTree_leaves using pos by simp
  show "Left (hd (assignKeys [Area c nm pc 0 0 (replicate n (newArea c' nm' pc'))])) = 1"
    unfolding h indexTree_leaves by simp
  show "Right (hd (assignKeys [Area c nm pc 0 0 (replicate n (newArea c' nm' pc'))])) = 2"
    unfolding h indexTree_leaves z by simp
qed

text \<open>
  Claim C9 as stated, for every node, fails in its last part: one province and
  \<open>2 ^ 31\<close> cities that resolve to it give a root with \<open>2 ^ 31\<close> children whose keys are
  \<open>Left = 1\<close> and \<open>Right = 2\<close>, since \<open>2 * 2 ^ 31\<close> is 0 in 32 bits.
\<close>

theorem leaf_test_overflow:
  "buildTrees no_spare [example_province] (replicate (2 ^ 31) example_city) [] [] =
     Inr [Area ''11'' ''A'' ''0'' 0 0 (replicate (2 ^ 31) (newArea ''1101'' ''B'' ''11''))] \<and>
   SubAreas (hd (assignKeys
     [Area ''11'' ''A'' ''0'' 0 0 (replicate (2 ^ 31) (newArea ''1101'' ''B'' ''11''))])) \<noteq> [] \<and>
   Left (hd (assignKeys
     [Area ''11'' ''A'' ''0'' 0 0 (replicate (2 ^ 31) (newArea ''1101'' ''B'' ''11''))])) = 1 \<and>
   Right (hd (assignKeys
     [Area ''11'' ''A'' ''0'' 0 0 (replicate (2 ^ 31) (newArea ''1101'' ''B'' ''11''))])) = 1 + 1"
proof -
  have n: "2 * 2 ^ 31 = (2 :: nat) ^ 32" by simp
  have two: "(2 :: int32) = 1 + 1" by simp
  from many_cities [of "2 ^ 31"] leaf_test_generic [OF n] show ?thesis
    unfolding two by blast
qed

subsection \<open>The emitted records\<close>

lemma sorted_wrt_subseq: "subseq xs ys \<Longrightarrow> sorted_wrt P ys \<Longrightarrow> sorted_wrt P xs"
proof (induction rule: list_emb.induct)
  case (list_emb_Nil ys)
  show ?case by simp
next
  case (list_emb_Cons xs ys y)
  then show ?case by simp
next
  case (list_emb_Cons2 x y xs ys)
  have "z \<in> set ys" if "z \<in> set xs" for z
    using list_emb_set [OF list_emb_Cons2(2) that] by auto
  with list_emb_Cons2 show ?case by auto
qed

lemma lefts_subseq_keys: "subseq (map Left (forest_nodes ts)) (forest_keys ts)"
proof (induction "forest_count ts" arbitrary: ts rule: less_induct)
  case less
  show ?case
  proof (cases ts)
    case Nil
    then show ?thesis by simp
  next
    case (Cons t us)
    have "forest_count (SubAreas t) < forest_count ts"
      using Cons by (simp add: node_count_SubAreas)
    then have a: "subseq (map Left (forest_nodes (SubAreas t))) (forest_keys (SubAreas t))"
      by (rule less.hyps)
    have "forest_count us < forest_count ts"
      using Cons node_count_pos [of t] by simp
    then have b: "subseq (map Left (forest_nodes us)) (forest_keys us)"
      by (rule less.hyps)
    have "subseq (map Left (forest_nodes (SubAreas t))) (forest_keys (SubAreas t) @ [Right t])"
      using a by (rule list_emb_prefix)
    then have "subseq (map Left (nodes_of t)) (keys t)"
      by (simp add: nodes_of_def descendants_SubAreas keys_unfold [of t])
    with b show ?thesis
      using Cons by (simp add: list_emb_append_mono)
  qed
qed

lemma lefts_increase:
  assumes "2 * forest_count trees < 2 ^ 31"
  shows "sorted_wrt (<) (map (\<lambda>N. sint (Left N)) (forest_nodes (assignKeys trees)))"
proof -
  have "subseq (map sint (map Left (forest_nodes (assignKeys trees))))
      (map sint (forest_keys (assignKeys trees)))"
    by (rule subseq_map [OF lefts_subseq_keys])
  moreover have "sorted_wrt (<) (map sint (forest_keys (assignKeys trees)))"
    unfolding assignKeys_keys [OF assms]
    by (simp add: sorted_wrt_map del: upt_Suc)
  ultimately have "sorted_wrt (<) (map sint (map Left (forest_nodes (assignKeys trees))))"
    by (rule sorted_wrt_subseq)
  then show ?thesis by (simp add: o_def)
qed

text \<open>
  Claim C7. On the indexed forest, if \<open>genSQLFile\<close> returns, the file holds exactly the
  statements of the output records in pre-order, and it returns when the file can be created
  and the sink takes every write. There is one record per node; the records carry, in the
  pre-order of the nodes, each node's code, name, parent code, left and right; with the
  depth they are the province records at depth 1, the city records at depth 2, the area
  records at depth 3 and the street records at depth 4; and, as long as the counter has not
  wrapped, the pre-order is the order of increasing \<open>Left\<close>, the order of indexing.
\<close>

theorem genSQLFile_emits_preorder:
  assumes "buildTrees spare provinces cities areas streets = Inr trees0"
  shows "(genSQLFile created accepts (assignKeys trees0) = Inr out \<longrightarrow>
            out = map statement (forest_records (assignKeys trees0))) \<and>
     (created \<and> (\<forall>f sql. accepts f sql) \<longrightarrow>
        genSQLFile created accepts (assignKeys trees0) =
          Inr (map statement (forest_records (assignKeys trees0)))) \<and>
     length (forest_records (assignKeys trees0)) = forest_count (assignKeys trees0) \<and>
     map undepth (forest_records (assignKeys trees0)) =
       map node_row (forest_nodes (assignKeys trees0)) \<and>
     mset (map unleveled (forest_records (assignKeys trees0))) =
       mset (map (\<lambda>p. (province_fields p, 1)) provinces) +
       mset (map (\<lambda>c. (flat_fields c, 2)) cities) +
       mset (map (\<lambda>a. (flat_fields a, 3)) areas) +
       mset (map (\<lambda>s. (flat_fields s, 4)) streets) \<and>
     (2 * (length provinces + length cities + length areas + length streets) < 2 ^ 31 \<longrightarrow>
        sorted_wrt (<) (map (\<lambda>N. sint (Left N)) (forest_nodes (assignKeys trees0))))"
proof -
  have "sorted_wrt (<) (map (\<lambda>N. sint (Left N)) (forest_nodes (assignKeys trees0)))"
    if "2 * (length provinces + length cities + length areas + length streets) < 2 ^ 31"
    using lefts_increase [of trees0] that by (simp add: buildTrees_count [OF assms])
  then show ?thesis
    using genSQLFile_file [of created accepts "assignKeys trees0" out]
      genSQLFile_completes [of created accepts "assignKeys trees0"]
      length_forest_records [of "assignKeys trees0"]
      forest_records_nodes [of "assignKeys trees0"]
      emitted_levels [OF assms]
    by blast
qed

theorem genSQLFile_emits_preorder_witness:
  "buildTrees no_spare [example_province] [example_city] [example_area] [example_street] =
     Inr example_forest \<and>
   assignKeys example_forest = example_indexed \<and>
   genSQLFile True sink_ok example_indexed =
     Inr [''INSERT INTO nested(id, node, pid, depth, lft, rgt) VALUES(11, 'A', 0, 1, 1, 8);\<newline>'',
      ''INSERT INTO nested(id, node, pid, depth, lft, rgt) VALUES(1101, 'B', 11, 2, 2, 7);\<newline>'',
      ''INSERT INTO nested(id, node, pid, depth, lft, rgt) VALUES(110101, 'C', 1101, 3, 3, 6);\<newline>'',
      ''INSERT INTO nested(id, node, pid, depth, lft, rgt) VALUES(1101010001, 'D', 110101, 4, 4, 5);\<newline>''] \<and>
   forest_records example_indexed =
     [(''11'', ''A'', ''0'', 1, 1, 8), (''1101'', ''B'', ''11'', 2, 2, 7),
      (''110101'', ''C'', ''1101'', 3, 3, 6), (''1101010001'', ''D'', ''110101'', 4, 4, 5)] \<and>
   forest_count example_indexed = 4 \<and>
   2 * (length [example_province] + length [example_city] + length [example_area] +
        length [example_street]) < (2 :: nat) ^ 31 \<and>
   sorted_wrt (<) (map (\<lambda>N. sint (Left N)) (forest_nodes example_indexed)) \<and>
   map (\<lambda>N. sint (Left N)) (forest_nodes example_indexed) = [1, 2, 3, 4]"
proof -
  have b: "buildTrees no_spare [example_province] [example_city] [example_area] [example_street] =
     Inr example_forest" by (rule example_build)
  have accepts: "\<forall>f sql. sink_ok f sql" by (simp add: sink_ok_def)
  note t = genSQLFile_emits_preorder [OF b, of True sink_ok]
  from t accepts have e: "genSQLFile True sink_ok (assignKeys example_forest) =
      Inr (map statement (forest_records (assignKeys example_forest)))"
    by blast
  from t have c: "length (forest_records (assignKeys example_forest)) =
      forest_count (assignKeys example_forest)"
    by blast
  from c have "forest_count example_indexed = 4"
    by (simp add: example_assign example_records)
  moreover have "map (\<lambda>N. sint (Left N)) (forest_nodes example_indexed) = [1, 2, 3, 4]"
    by (simp add: example_nodes)
  moreover from t have
    "sorted_wrt (<) (map (\<lambda>N. sint (Left N)) (forest_nodes (assignKeys example_forest)))"
    by simp
  ultimately show ?thesis using e b
    by (simp add: example_assign example_statements example_records)
qed

subsection \<open>Siblings stand in input order\<close>

lemma ordered_streets_more: "ordered_streets Z a \<Longrightarrow> ordered_streets (Z @ Z') a"
  unfolding ordered_streets_def by (rule list_emb_prefix)

lemma ordered_areas_more: "ordered_areas Y Z c \<Longrightarrow> ordered_areas (Y @ Y') (Z @ Z') c"
  unfolding ordered_areas_def by (auto intro: list_emb_prefix ordered_streets_more)

lemma ordered_cities_more:
  "ordered_cities X Y Z p \<Longrightarrow> ordered_cities (X @ X') (Y @ Y') (Z @ Z') p"
  unfolding ordered_cities_def by (auto intro: list_emb_prefix ordered_areas_more)

lemma ordered_new [simp]:
  "ordered_streets Z (newArea c n pc)" "ordered_areas Y Z (newArea c n pc)"
  by (simp_all add: ordered_streets_def ordered_areas_def newArea_def)

lemma ordered_streets_append:
  "ordered_streets Z a \<Longrightarrow> ordered_streets (Z @ [node_fields n]) (appendSub a n)"
  by (simp add: ordered_streets_def)

lemma ordered_areas_append:
  "ordered_areas Y Z c \<Longrightarrow> ordered_streets Z n \<Longrightarrow>
     ordered_areas (Y @ [node_fields n]) Z (appendSub c n)"
  by (auto simp: ordered_areas_def)

lemma ordered_cities_append:
  "ordered_cities X Y Z p \<Longrightarrow> ordered_areas Y Z n \<Longrightarrow>
     ordered_cities (X @ [node_fields n]) Y Z (appendSub p n)"
  by (auto simp: ordered_cities_def)

lemma all_update:
  assumes "\<forall>x \<in> set xs. P x" "Q y" "\<And>x. P x \<Longrightarrow> Q x"
  shows "\<forall>x \<in> set (xs[i := y]). Q x"
  using assms set_update_subset_insert [of xs i y] by blast

lemma ordered_areas_child:
  assumes "ordered_areas Y Z c" "h < length (SubAreas c)"
  shows "ordered_areas Y (Z @ [node_fields n])
           (setSubs c ((SubAreas c)[h := appendSub (SubAreas c ! h) n]))"
proof -
  have "map node_fields ((SubAreas c)[h := appendSub (SubAreas c ! h) n]) =
        map node_fields (SubAreas c)"
    by (rule map_fields_update) simp
  moreover have "\<forall>a \<in> set ((SubAreas c)[h := appendSub (SubAreas c ! h) n]).
      ordered_streets (Z @ [node_fields n]) a"
  proof (rule all_update [where P = "ordered_streets Z"])
    show "\<forall>a \<in> set (SubAreas c). ordered_streets Z a"
      using assms(1) by (simp add: ordered_areas_def)
    then have "ordered_streets Z (SubAreas c ! h)" using assms(2) by simp
    then show "ordered_streets (Z @ [node_fields n]) (appendSub (SubAreas c ! h) n)"
      by (rule ordered_streets_append)
  qed (rule ordered_streets_more)
  ultimately show ?thesis using assms(1) by (simp add: ordered_areas_def)
qed

lemma ordered_cities_child:
  assumes "ordered_cities X Y Z p" "j < length (SubAreas p)"
    and "ordered_areas Y Z (SubAreas p ! j) \<Longrightarrow> ordered_areas (Y @ Y') (Z @ Z') c'"
    and "node_fields c' = node_fields (SubAreas p ! j)"
  shows "ordered_cities X (Y @ Y') (Z @ Z') (setSubs p ((SubAreas p)[j := c']))"
proof -
  have "map node_fields ((SubAreas p)[j := c']) = map node_fields (SubAreas p)"
    by (rule map_fields_update) (rule assms(4))
  moreover have "\<forall>c \<in> set ((SubAreas p)[j := c']). ordered_areas (Y @ Y') (Z @ Z') c"
  proof (rule all_update [where P = "ordered_areas Y Z"])
    show all: "\<forall>c \<in> set (SubAreas p). ordered_areas Y Z c"
      using assms(1) by (simp add: ordered_cities_def)
    then have "ordered_areas Y Z (SubAreas p ! j)" using assms(2) by simp
    then show "ordered_areas (Y @ Y') (Z @ Z') c'" by (rule assms(3))
  qed (rule ordered_areas_more)
  ultimately show ?thesis using assms(1) by (simp add: ordered_cities_def)
qed

lemma cityStep_order:
  assumes "cityStep spare po (trees, co) c = Inr (trees', co')"
    and "\<forall>p \<in> set trees. ordered_cities X Y Z p"
  shows "\<forall>p \<in> set trees'. ordered_cities (X @ [flat_fields c]) Y Z p"
proof -
  let ?new = "newArea (flat_Code c) (flat_Name c) (flat_ParentCode c)"
  from assms(1) obtain i where i: "i < length trees"
    and t: "trees' = trees[i := appendSub (trees ! i) ?new]"
    by (auto simp: cityStep_def at_Inr Let_def split: sum.splits)
  have f: "node_fields ?new = flat_fields c" by (simp add: flat_fields_def)
  show ?thesis unfolding t
  proof (rule all_update [where P = "ordered_cities X Y Z"])
    show "\<forall>p \<in> set trees. ordered_cities X Y Z p" by (rule assms(2))
    then have "ordered_cities X Y Z (trees ! i)" using i by simp
    from ordered_cities_append [OF this, of ?new] show
      "ordered_cities (X @ [flat_fields c]) Y Z (appendSub (trees ! i) ?new)"
      by (simp add: flat_fields_def)
  next
    fix p assume "ordered_cities X Y Z p"
    from ordered_cities_more [OF this, of "[flat_fields c]" "[]" "[]"]
    show "ordered_cities (X @ [flat_fields c]) Y Z p" by simp
  qed
qed

lemma areaStep_order:
  assumes "areaStep spare po co (trees, ao) a = Inr (trees', ao')"
    and "\<forall>p \<in> set trees. ordered_cities X Y Z p"
  shows "\<forall>p \<in> set trees'. ordered_cities X (Y @ [flat_fields a]) Z p"
proof -
  let ?new = "newArea (flat_Code a) (flat_Name a) (flat_ParentCode a)"
  from assms(1) obtain i j where i: "i < length trees" and j: "j < length (SubAreas (trees ! i))"
    and t: "trees' = trees[i := setSubs (trees ! i)
              ((SubAreas (trees ! i))[j := appendSub (SubAreas (trees ! i) ! j) ?new])]"
    by (auto simp: areaStep_def at_Inr Let_def split: sum.splits)
  have f: "node_fields ?new = flat_fields a" by (simp add: flat_fields_def)
  show ?thesis unfolding t
  proof (rule all_update [where P = "ordered_cities X Y Z"])
    show "\<forall>p \<in> set trees. ordered_cities X Y Z p" by (rule assms(2))
    then have p: "ordered_cities X Y Z (trees ! i)" using i by simp
    have "ordered_cities X (Y @ [flat_fields a]) (Z @ [])
        (setSubs (trees ! i)
          ((SubAreas (trees ! i))[j := appendSub (SubAreas (trees ! i) ! j) ?new]))"
    proof (rule ordered_cities_child [OF p j])
      assume "ordered_areas Y Z (SubAreas (trees ! i) ! j)"
      from ordered_areas_append [OF this, of ?new]
      show "ordered_areas (Y @ [flat_fields a]) (Z @ []) (appendSub (SubAreas (trees ! i) ! j) ?new)"
        by (simp add: flat_fields_def)
    qed simp
    then show "ordered_cities X (Y @ [flat_fields a]) Z
        (setSubs (trees ! i)
          ((SubAreas (trees ! i))[j := appendSub (SubAreas (trees ! i) ! j) ?new]))"
      by simp
  next
    fix p assume "ordered_cities X Y Z p"
    from ordered_cities_more [OF this, of "[]" "[flat_fields a]" "[]"]
    show "ordered_cities X (Y @ [flat_fields a]) Z p" by simp
  qed
qed

lemma streetStep_order:
  assumes "streetStep spare po co ao trees s = Inr trees'"
    and "\<forall>p \<in> set trees. ordered_cities X Y Z p"
  shows "\<forall>p \<in> set trees'. ordered_cities X Y (Z @ [flat_fields s]) p"
proof -
  let ?new = "newArea (flat_Code s) (flat_Name s) (flat_ParentCode s)"
  from assms(1) obtain i j h where i: "i < length trees"
    and j: "j < length (SubAreas (trees ! i))"
    and h: "h < length (SubAreas (SubAreas (trees ! i) ! j))"
    and t: "trees' = trees[i := setSubs (trees ! i)
              ((SubAreas (trees ! i))[j := setSubs (SubAreas (trees ! i) ! j)
                 ((SubAreas (SubAreas (trees ! i) ! j))[h :=
                    appendSub (SubAreas (SubAreas (trees ! i) ! j) ! h) ?new])])]"
    by (auto simp: streetStep_def at_Inr Let_def split: sum.splits)
  have f: "node_fields ?new = flat_fields s" by (simp add: flat_fields_def)
  show ?thesis unfolding t
  proof (rule all_update [where P = "ordered_cities X Y Z"])
    show "\<forall>p \<in> set trees. ordered_cities X Y Z p" by (rule assms(2))
    then have p: "ordered_cities X Y Z (trees ! i)" using i by simp
    have "ordered_cities X (Y @ []) (Z @ [flat_fields s])
        (setSubs (trees ! i)
          ((SubAreas (trees ! i))[j := setSubs (SubAreas (trees ! i) ! j)
             ((SubAreas (SubAreas (trees ! i) ! j))[h :=
                appendSub (SubAreas (SubAreas (trees ! i) ! j) ! h) ?new])]))"
    proof (rule ordered_cities_child [OF p j])
      assume "ordered_areas Y Z (SubAreas (trees ! i) ! j)"
      from ordered_areas_child [OF this h, of ?new]
      show "ordered_areas (Y @ []) (Z @ [flat_fields s])
          (setSubs (SubAreas (trees ! i) ! j)
             ((SubAreas (SubAreas (trees ! i) ! j))[h :=
                appendSub (SubAreas (SubAreas (trees ! i) ! j) ! h) ?new]))"
        by (simp add: flat_fields_def)
    qed simp
    then show "ordered_cities X Y (Z @ [flat_fields s])
        (setSubs (trees ! i)
          ((SubAreas (trees ! i))[j := setSubs (SubAreas (trees ! i) ! j)
             ((SubAreas (SubAreas (trees ! i) ! j))[h :=
                appendSub (SubAreas (SubAreas (trees ! i) ! j) ! h) ?new])]))"
      by simp
  next
    fix p assume "ordered_cities X Y Z p"
    from ordered_cities_more [OF this, of "[]" "[]" "[flat_fields s]"]
    show "ordered_cities X Y (Z @ [flat_fields s]) p" by simp
  qed
qed

lemma city_loop_order:
  "loop (cityStep spare po) (t0, co0) cs = Inr (t1, co) \<Longrightarrow>
   \<forall>p \<in> set t0. ordered_cities (map flat_fields seen) Y Z p \<Longrightarrow>
   \<forall>p \<in> set t1. ordered_cities (map flat_fields (seen @ cs)) Y Z p"
proof (induction cs arbitrary: t0 co0 seen)
  case Nil
  then show ?case by simp
next
  case (Cons c cs)
  from Cons.prems(1) obtain t co' where a: "cityStep spare po (t0, co0) c = Inr (t, co')"
    and b: "loop (cityStep spare po) (t, co') cs = Inr (t1, co)"
    by (auto split: sum.splits)
  from cityStep_order [OF a Cons.prems(2)]
  have "\<forall>p \<in> set t. ordered_cities (map flat_fields (seen @ [c])) Y Z p" by simp
  from Cons.IH [OF b this] show ?case by simp
qed

lemma area_loop_order:
  "loop (areaStep spare po co) (t0, ao0) as = Inr (t1, ao) \<Longrightarrow>
   \<forall>p \<in> set t0. ordered_cities X (map flat_fields seen) Z p \<Longrightarrow>
   \<forall>p \<in> set t1. ordered_cities X (map flat_fields (seen @ as)) Z p"
proof (induction as arbitrary: t0 ao0 seen)
  case Nil
  then show ?case by simp
next
  case (Cons a as)
  from Cons.prems(1) obtain t ao' where a: "areaStep spare po co (t0, ao0) a = Inr (t, ao')"
    and b: "loop (areaStep spare po co) (t, ao') as = Inr (t1, ao)"
    by (auto split: sum.splits)
  from areaStep_order [OF a Cons.prems(2)]
  have "\<forall>p \<in> set t. ordered_cities X (map flat_fields (seen @ [a])) Z p" by simp
  from Cons.IH [OF b this] show ?case by simp
qed

lemma street_loop_order:
  "loop (streetStep spare po co ao) t0 ss = Inr t1 \<Longrightarrow>
   \<forall>p \<in> set t0. ordered_cities X Y (map flat_fields seen) p \<Longrightarrow>
   \<forall>p \<in> set t1. ordered_cities X Y (map flat_fields (seen @ ss)) p"
proof (induction ss arbitrary: t0 seen)
  case Nil
  then show ?case by simp
next
  case (Cons s ss)
  from Cons.prems(1) obtain t where a: "streetStep spare po co ao t0 s = Inr t"
    and b: "loop (streetStep spare po co ao) t ss = Inr t1"
    by (auto split: sum.splits)
  from streetStep_order [OF a Cons.prems(2)]
  have "\<forall>p \<in> set t. ordered_cities X Y (map flat_fields (seen @ [s])) p" by simp
  from Cons.IH [OF b this] show ?case by simp
qed

lemma buildTrees_order:
  assumes "buildTrees spare ps cs as ss = Inr ts"
  shows "\<forall>p \<in> set ts. ordered_cities (map flat_fields cs) (map flat_fields as) (map flat_fields ss) p"
proof -
  let ?t0 = "map (\<lambda>p. newArea (flat_Code p) (flat_Name p) ''0'') ps"
  from assms obtain po t1 co t2 ao where
    c: "loop (cityStep spare po) (?t0, Map.empty) cs = Inr (t1, co)"
    and a: "loop (areaStep spare po co) (t1, Map.empty) as = Inr (t2, ao)"
    and s: "loop (streetStep spare po co ao) t2 ss = Inr ts"
    by (rule buildTrees_phases)
  have "\<forall>p \<in> set ?t0. ordered_cities (map flat_fields []) (map flat_fields []) (map flat_fields []) p"
    by (auto simp: ordered_cities_def newArea_def)
  from city_loop_order [OF c this]
  have "\<forall>p \<in> set t1. ordered_cities (map flat_fields cs) (map flat_fields []) (map flat_fields []) p"
    by simp
  from area_loop_order [OF a this]
  have "\<forall>p \<in> set t2. ordered_cities (map flat_fields cs) (map flat_fields as) (map flat_fields []) p"
    by simp
  from street_loop_order [OF s this] show ?thesis by simp
qed

lemma city_table_grows:
  "city_table_ok spare po co trees \<Longrightarrow> grows trees trees' \<Longrightarrow> city_table_ok spare po co trees'"
  unfolding city_table_ok_def grows_def by (metis less_le_trans)

lemma area_table_grows:
  assumes "area_table_ok spare po co ao trees" "grows trees trees'"
  shows "area_table_ok spare po co ao trees'"
  unfolding area_table_ok_def
proof (intro allI impI)
  fix k h assume "ao k = Some h"
  with assms(1) obtain pc cc where a: "getProvince spare k = Inr pc" "getCity spare k = Inr cc"
    "lookup po pc < length trees" "lookup co cc < length (SubAreas (trees ! lookup po pc))"
    "h < length (SubAreas (SubAreas (trees ! lookup po pc) ! lookup co cc))"
    unfolding area_table_ok_def by blast
  from assms(2) a(3,4) have
    "length trees' = length trees"
    "length (SubAreas (trees ! lookup po pc)) \<le> length (SubAreas (trees' ! lookup po pc))"
    "length (SubAreas (SubAreas (trees ! lookup po pc) ! lookup co cc)) \<le>
     length (SubAreas (SubAreas (trees' ! lookup po pc) ! lookup co cc))"
    unfolding grows_def by simp_all
  with a show "\<exists>pc cc. getProvince spare k = Inr pc \<and> getCity spare k = Inr cc \<and>
           lookup po pc < length trees' \<and>
           lookup co cc < length (SubAreas (trees' ! lookup po pc)) \<and>
           h < length (SubAreas (SubAreas (trees' ! lookup po pc) ! lookup co cc))"
    by (intro exI [of _ pc] exI [of _ cc]) simp
qed

lemma grows_attach1:
  "i < length ts \<Longrightarrow> grows ts (ts[i := appendSub (ts ! i) x])"
  by (auto simp: grows_def nth_list_update nth_append)

lemma grows_attach2:
  "i < length ts \<Longrightarrow> j < length (SubAreas (ts ! i)) \<Longrightarrow>
     grows ts (ts[i := setSubs (ts ! i)
        ((SubAreas (ts ! i))[j := appendSub (SubAreas (ts ! i) ! j) x])])"
  by (auto simp: grows_def nth_list_update)

lemma grows_attach3:
  "i < length ts \<Longrightarrow> j < length (SubAreas (ts ! i)) \<Longrightarrow>
     grows ts (ts[i := setSubs (ts ! i)
        ((SubAreas (ts ! i))[j := setSubs (SubAreas (ts ! i) ! j)
           ((SubAreas (SubAreas (ts ! i) ! j))[h := y])])])"
  by (auto simp: grows_def nth_list_update)

lemma prefix_consistent:
  assumes "getCity spare code = Inr cc"
  shows "\<exists>pc. getProvince spare code = Inr pc \<and> getProvince spare cc = Inr pc"
proof -
  from assms have cap: "4 \<le> length code + length (spare code)"
    and cc: "cc = take 4 (code @ spare code) @ ''00''"
    by (auto simp: getCity_def slice_to_def copy_bytes_same split: if_splits)
  have "getProvince spare code = Inr (take 2 (code @ spare code) @ ''0000'')"
    using cap by (simp add: getProvince_def slice_to_def copy_bytes_same)
  moreover have "take 2 cc = take 2 (code @ spare code)"
    using cap by (simp add: cc min_def)
  then have "getProvince spare cc = Inr (take 2 (code @ spare code) @ ''0000'')"
    using getProvince_enough [of cc spare] cap by (simp add: cc)
  ultimately show ?thesis by simp
qed

lemma prefix_consistent_area:
  assumes "getArea spare code = Inr ac"
  shows "\<exists>pc cc. getProvince spare code = Inr pc \<and> getProvince spare ac = Inr pc \<and>
           getCity spare code = Inr cc \<and> getCity spare ac = Inr cc"
proof -
  from assms have cap: "6 \<le> length code + length (spare code)"
    and ac: "ac = take 6 (code @ spare code)"
    by (auto simp: getArea_def slice_to_def copy_bytes_same split: if_splits)
  have len: "length ac = 6" using cap by (simp add: ac)
  have "getProvince spare code = Inr (take 2 (code @ spare code) @ ''0000'')"
    using cap by (simp add: getProvince_def slice_to_def copy_bytes_same)
  moreover have "getCity spare code = Inr (take 4 (code @ spare code) @ ''00'')"
    using cap by (simp add: getCity_def slice_to_def copy_bytes_same)
  moreover have "take 2 ac = take 2 (code @ spare code)" "take 4 ac = take 4 (code @ spare code)"
    by (simp_all add: ac min_def)
  then have "getProvince spare ac = Inr (take 2 (code @ spare code) @ ''0000'')"
    "getCity spare ac = Inr (take 4 (code @ spare code) @ ''00'')"
    using getProvince_enough [of ac spare] getCity_enough [of ac spare] len by simp_all
  ultimately show ?thesis by simp
qed

lemma provinceLoop_table:
  assumes "provinceLoop (length t0) ps (t0, po0) = (t, po)"
    and "\<forall>k i. po0 k = Some i \<longrightarrow> i < length t0"
  shows "(\<forall>k i. po k = Some i \<longrightarrow> i < length t) \<and> dom po0 \<union> flat_Code ` set ps \<subseteq> dom po"
  using assms
proof (induction ps arbitrary: t0 po0)
  case Nil
  then show ?case by simp
next
  case (Cons p ps)
  let ?t1 = "t0 @ [newArea (flat_Code p) (flat_Name p) ''0'']"
  let ?po1 = "po0(flat_Code p \<mapsto> length t0)"
  from Cons.prems(1) have run: "provinceLoop (length ?t1) ps (?t1, ?po1) = (t, po)" by simp
  have ok: "\<forall>k i. ?po1 k = Some i \<longrightarrow> i < length ?t1"
    using Cons.prems(2) by (auto simp: less_Suc_eq)
  note ih = Cons.IH [OF run ok]
  from ih have bound: "\<forall>k i. po k = Some i \<longrightarrow> i < length t" by (rule conjunct1)
  from ih have d: "dom ?po1 \<union> flat_Code ` set ps \<subseteq> dom po" by (rule conjunct2)
  have "dom po0 \<union> flat_Code ` set (p # ps) \<subseteq> dom ?po1 \<union> flat_Code ` set ps"
    by auto
  with d have "dom po0 \<union> flat_Code ` set (p # ps) \<subseteq> dom po" by (rule subset_trans [rotated])
  with bound show ?case by (rule conjI)
qed

lemma city_step_total:
  assumes g: "getProvince spare (flat_Code c) = Inr pc" and p: "po pc = Some i"
    and i: "i < length trees" and ok: "city_table_ok spare po co trees"
  shows "\<exists>trees' co'. cityStep spare po (trees, co) c = Inr (trees', co') \<and>
     grows trees trees' \<and> city_table_ok spare po co' trees' \<and>
     insert (flat_Code c) (dom co) \<subseteq> dom co'"
proof -
  let ?new = "newArea (flat_Code c) (flat_Name c) (flat_ParentCode c)"
  let ?trees' = "trees[i := appendSub (trees ! i) ?new]"
  let ?co' = "co(flat_Code c \<mapsto> length (SubAreas (trees ! i)))"
  have l: "lookup po pc = i" using p by (simp add: lookup_def)
  have step: "cityStep spare po (trees, co) c = Inr (?trees', ?co')"
    using g i by (simp add: cityStep_def l at_def)
  have gr: "grows trees ?trees'" by (rule grows_attach1 [OF i])
  have "city_table_ok spare po ?co' ?trees'"
    unfolding city_table_ok_def
  proof (intro allI impI)
    fix k j assume kj: "?co' k = Some j"
    show "\<exists>pc. getProvince spare k = Inr pc \<and> lookup po pc < length ?trees' \<and>
              j < length (SubAreas (?trees' ! lookup po pc))"
    proof (cases "k = flat_Code c")
      case True
      with kj have "j = length (SubAreas (trees ! i))" by simp
      with True g l i show ?thesis by (intro exI [of _ pc]) simp
    next
      case False
      with kj have "co k = Some j" by simp
      with city_table_grows [OF ok gr] show ?thesis
        unfolding city_table_ok_def by blast
    qed
  qed
  with step gr show ?thesis by (intro exI [of _ ?trees'] exI [of _ ?co']) auto
qed

lemma city_loop_total:
  assumes "\<forall>c \<in> set cs. \<exists>pc i. getProvince spare (flat_Code c) = Inr pc \<and> po pc = Some i \<and>
             i < length trees"
    and "city_table_ok spare po co trees"
  shows "\<exists>trees' co'. loop (cityStep spare po) (trees, co) cs = Inr (trees', co') \<and>
     length trees' = length trees \<and> city_table_ok spare po co' trees' \<and>
     dom co \<union> flat_Code ` set cs \<subseteq> dom co'"
  using assms
proof (induction cs arbitrary: trees co)
  case Nil
  then show ?case by simp
next
  case (Cons c cs)
  from Cons.prems(1) obtain pc i where "getProvince spare (flat_Code c) = Inr pc"
    "po pc = Some i" "i < length trees" by auto
  from city_step_total [OF this Cons.prems(2)] obtain t1 co1 where
    step: "cityStep spare po (trees, co) c = Inr (t1, co1)" and gr: "grows trees t1"
    and ok: "city_table_ok spare po co1 t1" and d: "insert (flat_Code c) (dom co) \<subseteq> dom co1"
    by blast
  have len: "length t1 = length trees" using gr by (simp add: grows_def)
  have "\<forall>c \<in> set cs. \<exists>pc i. getProvince spare (flat_Code c) = Inr pc \<and> po pc = Some i \<and>
             i < length t1"
    using Cons.prems(1) len by simp
  from Cons.IH [OF this ok] obtain trees' co' where
    "loop (cityStep spare po) (t1, co1) cs = Inr (trees', co')"
    "length trees' = length t1" "city_table_ok spare po co' trees'"
    "dom co1 \<union> flat_Code ` set cs \<subseteq> dom co'"
    by blast
  with step len d show ?case
    by (intro exI [of _ trees'] exI [of _ co']) auto
qed

lemma area_step_total:
  assumes g: "getCity spare (flat_Code a) = Inr cc" and c: "co cc = Some j"
    and cok: "city_table_ok spare po co trees" and aok: "area_table_ok spare po co ao trees"
  shows "\<exists>trees' ao'. areaStep spare po co (trees, ao) a = Inr (trees', ao') \<and>
     grows trees trees' \<and> area_table_ok spare po co ao' trees' \<and>
     insert (flat_Code a) (dom ao) \<subseteq> dom ao'"
proof -
  let ?new = "newArea (flat_Code a) (flat_Name a) (flat_ParentCode a)"
  from prefix_consistent [OF g] obtain pc where gp: "getProvince spare (flat_Code a) = Inr pc"
    and gc: "getProvince spare cc = Inr pc" by blast
  from cok c gc have i: "lookup po pc < length trees"
    and j: "j < length (SubAreas (trees ! lookup po pc))"
    unfolding city_table_ok_def by fastforce+
  let ?i = "lookup po pc"
  let ?p = "trees ! ?i"
  let ?c = "SubAreas ?p ! j"
  let ?trees' = "trees[?i := setSubs ?p ((SubAreas ?p)[j := appendSub ?c ?new])]"
  let ?ao' = "ao(flat_Code a \<mapsto> length (SubAreas ?c))"
  have l: "lookup co cc = j" using c by (simp add: lookup_def)
  have step: "areaStep spare po co (trees, ao) a = Inr (?trees', ?ao')"
    using g gp i j by (simp add: areaStep_def l at_def)
  have gr: "grows trees ?trees'" by (rule grows_attach2 [OF i j])
  have "area_table_ok spare po co ?ao' ?trees'"
    unfolding area_table_ok_def
  proof (intro allI impI)
    fix k h assume kh: "?ao' k = Some h"
    show "\<exists>pc cc. getProvince spare k = Inr pc \<and> getCity spare k = Inr cc \<and>
           lookup po pc < length ?trees' \<and>
           lookup co cc < length (SubAreas (?trees' ! lookup po pc)) \<and>
           h < length (SubAreas (SubAreas (?trees' ! lookup po pc) ! lookup co cc))"
    proof (cases "k = flat_Code a")
      case True
      with kh have "h = length (SubAreas ?c)" by simp
      with True g gp l i j show ?thesis
        by (intro exI [of _ pc] exI [of _ cc]) simp
    next
      case False
      with kh have "ao k = Some h" by simp
      with area_table_grows [OF aok gr] show ?thesis
        unfolding area_table_ok_def by blast
    qed
  qed
  with step gr show ?thesis by (intro exI [of _ ?trees'] exI [of _ ?ao']) auto
qed

lemma area_loop_total:
  assumes "\<forall>a \<in> set as. \<exists>cc j. getCity spare (flat_Code a) = Inr cc \<and> co cc = Some j"
    and "city_table_ok spare po co trees" and "area_table_ok spare po co ao trees"
  shows "\<exists>trees' ao'. loop (areaStep spare po co) (trees, ao) as = Inr (trees', ao') \<and>
     city_table_ok spare po co trees' \<and> area_table_ok spare po co ao' trees' \<and>
     dom ao \<union> flat_Code ` set as \<subseteq> dom ao'"
  using assms
proof (induction as arbitrary: trees ao)
  case Nil
  then show ?case by simp
next
  case (Cons a as)
  from Cons.prems(1) obtain cc j where "getCity spare (flat_Code a) = Inr cc" "co cc = Some j"
    by auto
  from area_step_total [OF this Cons.prems(2,3)] obtain t1 ao1 where
    step: "areaStep spare po co (trees, ao) a = Inr (t1, ao1)" and gr: "grows trees t1"
    and ok: "area_table_ok spare po co ao1 t1" and d: "insert (flat_Code a) (dom ao) \<subseteq> dom ao1"
    by blast
  have cok: "city_table_ok spare po co t1" by (rule city_table_grows [OF Cons.prems(2) gr])
  have "\<forall>a \<in> set as. \<exists>cc j. getCity spare (flat_Code a) = Inr cc \<and> co cc = Some j"
    using Cons.prems(1) by simp
  from Cons.IH [OF this cok ok] obtain trees' ao' where
    "loop (areaStep spare po co) (t1, ao1) as = Inr (trees', ao')"
    "city_table_ok spare po co trees'" "area_table_ok spare po co ao' trees'"
    "dom ao1 \<union> flat_Code ` set as \<subseteq> dom ao'"
    by blast
  with step d show ?case
    by (intro exI [of _ trees'] exI [of _ ao']) auto
qed

lemma street_step_total:
  assumes g: "getArea spare (flat_Code s) = Inr ac" and a: "ao ac = Some h"
    and aok: "area_table_ok spare po co ao trees"
  shows "\<exists>trees'. streetStep spare po co ao trees s = Inr trees' \<and> grows trees trees'"
proof -
  let ?new = "newArea (flat_Code s) (flat_Name s) (flat_ParentCode s)"
  from prefix_consistent_area [OF g] obtain pc cc where
    gp: "getProvince spare (flat_Code s) = Inr pc" "getProvince spare ac = Inr pc"
    and gc: "getCity spare (flat_Code s) = Inr cc" "getCity spare ac = Inr cc" by blast
  from aok a gp(2) gc(2) have i: "lookup po pc < length trees"
    and j: "lookup co cc < length (SubAreas (trees ! lookup po pc))"
    and h: "h < length (SubAreas (SubAreas (trees ! lookup po pc) ! lookup co cc))"
    unfolding area_table_ok_def by fastforce+
  have l: "lookup ao ac = h" using a by (simp add: lookup_def)
  let ?p = "trees ! lookup po pc"
  let ?c = "SubAreas ?p ! lookup co cc"
  let ?trees' = "trees[lookup po pc := setSubs ?p ((SubAreas ?p)[lookup co cc :=
      setSubs ?c ((SubAreas ?c)[h := appendSub (SubAreas ?c ! h) ?new])])]"
  have "streetStep spare po co ao trees s = Inr ?trees'"
    using g gp(1) gc(1) i j h by (simp add: streetStep_def l at_def)
  moreover have "grows trees ?trees'" by (rule grows_attach3 [OF i j])
  ultimately show ?thesis by blast
qed

lemma street_loop_total:
  assumes "\<forall>s \<in> set ss. \<exists>ac h. getArea spare (flat_Code s) = Inr ac \<and> ao ac = Some h"
    and "area_table_ok spare po co ao trees"
  shows "\<exists>trees'. loop (streetStep spare po co ao) trees ss = Inr trees'"
  using assms
proof (induction ss arbitrary: trees)
  case Nil
  then show ?case by simp
next
  case (Cons s ss)
  from Cons.prems(1) obtain ac h where "getArea spare (flat_Code s) = Inr ac" "ao ac = Some h"
    by auto
  from street_step_total [OF this Cons.prems(2)] obtain t1 where
    step: "streetStep spare po co ao trees s = Inr t1" and gr: "grows trees t1"
    by blast
  have "\<forall>s \<in> set ss. \<exists>ac h. getArea spare (flat_Code s) = Inr ac \<and> ao ac = Some h"
    using Cons.prems(1) by simp
  from Cons.IH [OF this area_table_grows [OF Cons.prems(2) gr]] step show ?case
    by auto
qed

lemma resolvable_builds:
  assumes "all_resolve spare ps cs as ss"
  shows "\<exists>trees. buildTrees spare ps cs as ss = Inr trees"
proof -
  obtain t0 po where p: "provinceLoop 0 ps ([], Map.empty) = (t0, po)"
    by (cases "provinceLoop 0 ps ([], Map.empty)")
  from provinceLoop_table [of "[]" ps Map.empty t0 po] p
  have po: "\<forall>k i. po k = Some i \<longrightarrow> i < length t0" and dpo: "flat_Code ` set ps \<subseteq> dom po"
    by simp_all
  have "\<forall>c \<in> set cs. \<exists>pc i. getProvince spare (flat_Code c) = Inr pc \<and> po pc = Some i \<and>
             i < length t0"
  proof
    fix c assume "c \<in> set cs"
    with assms obtain pc where "getProvince spare (flat_Code c) = Inr pc"
      "pc \<in> flat_Code ` set ps"
      unfolding all_resolve_def resolves_to_def by blast
    with po dpo show "\<exists>pc i. getProvince spare (flat_Code c) = Inr pc \<and> po pc = Some i \<and>
             i < length t0" by blast
  qed
  moreover have "city_table_ok spare po Map.empty t0" by (simp add: city_table_ok_def)
  ultimately obtain t1 co where
    c: "loop (cityStep spare po) (t0, Map.empty) cs = Inr (t1, co)"
    and cok: "city_table_ok spare po co t1" and dco: "flat_Code ` set cs \<subseteq> dom co"
    using city_loop_total [of cs spare po t0 Map.empty] by auto
  have "\<forall>a \<in> set as. \<exists>cc j. getCity spare (flat_Code a) = Inr cc \<and> co cc = Some j"
  proof
    fix a assume "a \<in> set as"
    with assms obtain cc where "getCity spare (flat_Code a) = Inr cc" "cc \<in> flat_Code ` set cs"
      unfolding all_resolve_def resolves_to_def by blast
    with dco show "\<exists>cc j. getCity spare (flat_Code a) = Inr cc \<and> co cc = Some j" by blast
  qed
  moreover have "area_table_ok spare po co Map.empty t1" by (simp add: area_table_ok_def)
  ultimately obtain t2 ao where
    a: "loop (areaStep spare po co) (t1, Map.empty) as = Inr (t2, ao)"
    and aok: "area_table_ok spare po co ao t2" and dao: "flat_Code ` set as \<subseteq> dom ao"
    using area_loop_total [of as spare co po t1 Map.empty] cok by auto
  have "\<forall>s \<in> set ss. \<exists>ac h. getArea spare (flat_Code s) = Inr ac \<and> ao ac = Some h"
  proof
    fix s assume "s \<in> set ss"
    with assms obtain ac where "getArea spare (flat_Code s) = Inr ac" "ac \<in> flat_Code ` set as"
      unfolding all_resolve_def resolves_to_def by blast
    with dao show "\<exists>ac h. getArea spare (flat_Code s) = Inr ac \<and> ao ac = Some h" by blast
  qed
  from street_loop_total [OF this aok] obtain ts where
    "loop (streetStep spare po co ao) t2 ss = Inr ts" by blast
  with p c a show ?thesis by (simp add: buildTrees_def)
qed

text \<open>
  Claim C5. In every forest that \<open>buildTrees\<close> returns, the roots are the province
  records in the order of the province list, and under every parent the children stand in
  the relative order of their records in the input list of their level: cities under a
  province, areas under a city, streets under an area. And for an input whose records all
  resolve to existing parents \<open>buildTrees\<close> does return a forest.
\<close>

theorem siblings_keep_input_order:
  "(buildTrees spare provinces cities areas streets = Inr trees \<longrightarrow>
      siblings_in_input_order trees provinces cities areas streets) \<and>
   (all_resolve spare provinces cities areas streets \<longrightarrow>
      (\<exists>built. buildTrees spare provinces cities areas streets = Inr built \<and>
         siblings_in_input_order built provinces cities areas streets))"
proof -
  have order: "siblings_in_input_order ts provinces cities areas streets"
    if "buildTrees spare provinces cities areas streets = Inr ts" for ts
    unfolding siblings_in_input_order_def
    using buildTrees_roots [OF that] buildTrees_order [OF that] by simp
  then show ?thesis using resolvable_builds [of spare provinces cities areas streets]
    by blast
qed

theorem siblings_keep_input_order_witness:
  "all_resolve no_spare two_provinces four_cities three_areas one_street \<and>
   buildTrees no_spare two_provinces four_cities three_areas one_street = Inr two_trees \<and>
   siblings_in_input_order two_trees two_provinces four_cities three_areas one_street"
proof -
  have r: "all_resolve no_spare two_provinces four_cities three_areas one_street"
    by (simp add: all_resolve_def resolves_to_def two_provinces_def four_cities_def
        three_areas_def one_street_def getProvince_def getCity_def getArea_def slice_to_def
        copy_bytes_def no_spare_def)
  have b: "buildTrees no_spare two_provinces four_cities three_areas one_street = Inr two_trees"
    by (simp add: build_defs no_spare_def two_provinces_def four_cities_def three_areas_def
        one_street_def two_trees_def)
  from siblings_keep_input_order
    [of no_spare two_provinces four_cities three_areas one_street two_trees] r b
  show ?thesis by simp
qed

subsection \<open>Short codes\<close>

lemma slice_to_Inr: "slice_to b behind n = Inr x \<Longrightarrow> n \<le> length b + length behind"
  by (simp add: slice_to_def split: if_splits)

lemma slice_to_Inl: "slice_to b behind n = Inl e \<Longrightarrow> runtime_panic e"
  by (auto simp: slice_to_def runtime_panic_def split: if_splits)

lemma at_Inl: "at xs i = Inl e \<Longrightarrow> runtime_panic e"
  by (auto simp: at_def runtime_panic_def split: if_splits)

lemma resolver_Inr:
  "getProvince spare code = Inr x \<Longrightarrow> 2 \<le> capacity spare code"
  "getCity spare code = Inr x \<Longrightarrow> 4 \<le> capacity spare code"
  "getArea spare code = Inr x \<Longrightarrow> 6 \<le> capacity spare code"
  by (auto simp: getProvince_def getCity_def getArea_def capacity_def Let_def
      dest: slice_to_Inr split: sum.splits)

lemma resolver_Inl:
  "getProvince spare code = Inl e \<Longrightarrow> runtime_panic e"
  "getCity spare code = Inl e \<Longrightarrow> runtime_panic e"
  "getArea spare code = Inl e \<Longrightarrow> runtime_panic e"
  by (auto simp: getProvince_def getCity_def getArea_def Let_def
      dest: slice_to_Inl split: sum.splits)

lemma step_Inr:
  "cityStep spare po st c = Inr st' \<Longrightarrow> 2 \<le> capacity spare (flat_Code c)"
  "areaStep spare po co st a = Inr st' \<Longrightarrow> 4 \<le> capacity spare (flat_Code a)"
  "streetStep spare po co ao trees s = Inr trees' \<Longrightarrow> 6 \<le> capacity spare (flat_Code s)"
  by (auto simp: cityStep_def areaStep_def streetStep_def Let_def
      dest: resolver_Inr split: sum.splits prod.splits)

lemma step_Inl:
  "cityStep spare po st c = Inl e \<Longrightarrow> runtime_panic e"
  "areaStep spare po co st a = Inl e \<Longrightarrow> runtime_panic e"
  "streetStep spare po co ao trees s = Inl e \<Longrightarrow> runtime_panic e"
  by (auto simp: cityStep_def areaStep_def streetStep_def Let_def
      dest: resolver_Inl at_Inl split: sum.splits prod.splits)

lemma loop_Inr:
  "loop body s xs = Inr s' \<Longrightarrow> x \<in> set xs \<Longrightarrow> \<exists>s1 s2. body s1 x = Inr s2"
proof (induction xs arbitrary: s)
  case Nil
  then show ?case by simp
next
  case (Cons y xs)
  from Cons.prems(1) obtain s1 where a: "body s y = Inr s1" and b: "loop body s1 xs = Inr s'"
    by (auto split: sum.splits)
  from Cons.prems(2) a Cons.IH [OF b] show ?case by auto
qed

lemma loop_Inl:
  "loop body s xs = Inl e \<Longrightarrow> \<exists>s1 x. x \<in> set xs \<and> body s1 x = Inl e"
proof (induction xs arbitrary: s)
  case Nil
  then show ?case by simp
next
  case (Cons y xs)
  show ?case
  proof (cases "body s y")
    case (Inl e')
    with Cons.prems show ?thesis by auto
  next
    case (Inr s1)
    with Cons.prems have "loop body s1 xs = Inl e" by simp
    from Cons.IH [OF this] show ?thesis by auto
  qed
qed

lemma buildTrees_Inr_capacity:
  assumes "buildTrees spare ps cs as ss = Inr ts"
  shows "(\<forall>c \<in> set cs. 2 \<le> capacity spare (flat_Code c)) \<and>
     (\<forall>a \<in> set as. 4 \<le> capacity spare (flat_Code a)) \<and>
     (\<forall>s \<in> set ss. 6 \<le> capacity spare (flat_Code s))"
proof -
  from assms obtain po t1 co t2 ao where
    c: "loop (cityStep spare po)
       (map (\<lambda>p. newArea (flat_Code p) (flat_Name p) ''0'') ps, Map.empty) cs = Inr (t1, co)"
    and a: "loop (areaStep spare po co) (t1, Map.empty) as = Inr (t2, ao)"
    and s: "loop (streetStep spare po co ao) t2 ss = Inr ts"
    by (rule buildTrees_phases)
  show ?thesis
  proof (intro conjI ballI)
    fix x assume "x \<in> set cs"
    from loop_Inr [OF c this] obtain s1 s2 where "cityStep spare po s1 x = Inr s2" by blast
    then show "2 \<le> capacity spare (flat_Code x)" by (rule step_Inr(1))
  next
    fix x assume "x \<in> set as"
    from loop_Inr [OF a this] obtain s1 s2 where "areaStep spare po co s1 x = Inr s2" by blast
    then show "4 \<le> capacity spare (flat_Code x)" by (rule step_Inr(2))
  next
    fix x assume "x \<in> set ss"
    from loop_Inr [OF s this] obtain s1 s2 where "streetStep spare po co ao s1 x = Inr s2"
      by blast
    then show "6 \<le> capacity spare (flat_Code x)" by (rule step_Inr(3))
  qed
qed

lemma buildTrees_Inl_runtime:
  assumes "buildTrees spare ps cs as ss = Inl e"
  shows "runtime_panic e"
proof -
  obtain t0 po where p: "provinceLoop 0 ps ([], Map.empty) = (t0, po)"
    by (cases "provinceLoop 0 ps ([], Map.empty)")
  show ?thesis
  proof (cases "loop (cityStep spare po) (t0, Map.empty) cs")
    case (Inl e1)
    with assms p have "e1 = e" by (simp add: buildTrees_def)
    with loop_Inl [OF Inl] step_Inl(1) show ?thesis by blast
  next
    case c: (Inr st1)
    obtain t1 co where st1: "st1 = (t1, co)" by (cases st1)
    show ?thesis
    proof (cases "loop (areaStep spare po co) (t1, Map.empty) as")
      case (Inl e2)
      with assms p c st1 have "e2 = e" by (simp add: buildTrees_def)
      with loop_Inl [OF Inl] step_Inl(2) show ?thesis by blast
    next
      case a: (Inr st2)
      obtain t2 ao where st2: "st2 = (t2, ao)" by (cases st2)
      from assms p c st1 a st2 have "loop (streetStep spare po co ao) t2 ss = Inl e"
        by (simp add: buildTrees_def)
      from loop_Inl [OF this] step_Inl(3) show ?thesis by blast
    qed
  qed
qed

text \<open>
  Claim C6, amended to what the code does. When some city, area or street record has a code
  whose converted byte slice is shorter in capacity than its level requires (2, 4, 6), no
  forest is built and \<open>main\<close> ends with the failure of \<open>buildTrees\<close>. Every failure of
  \<open>buildTrees\<close> is a panic of the Go run time, a slice bound beyond the capacity or an index
  beyond the length, whose value is these two numbers: it names neither the record nor its
  code. Province codes are never resolved.
\<close>

theorem short_code_stops_build:
  "((\<exists>c \<in> set cities. capacity spare (flat_Code c) < 2) \<or>
    (\<exists>a \<in> set areas. capacity spare (flat_Code a) < 4) \<or>
    (\<exists>s \<in> set streets. capacity spare (flat_Code s) < 6) \<longrightarrow>
      (\<exists>e. buildTrees spare provinces cities areas streets = Inl e \<and>
           main spare created accepts provinces cities areas streets = Inl e)) \<and>
   (buildTrees spare provinces cities areas streets = Inl e \<longrightarrow>
      main spare created accepts provinces cities areas streets = Inl e \<and>
      ((\<exists>n k. e = SliceBounds n k \<and> k < n) \<or> (\<exists>i k. e = IndexRange i k \<and> k \<le> i)))"
proof (intro conjI impI)
  assume short: "(\<exists>c \<in> set cities. capacity spare (flat_Code c) < 2) \<or>
    (\<exists>a \<in> set areas. capacity spare (flat_Code a) < 4) \<or>
    (\<exists>s \<in> set streets. capacity spare (flat_Code s) < 6)"
  show "\<exists>e. buildTrees spare provinces cities areas streets = Inl e \<and>
           main spare created accepts provinces cities areas streets = Inl e"
  proof (cases "buildTrees spare provinces cities areas streets")
    case (Inl e)
    then show ?thesis by (simp add: main_def)
  next
    case (Inr ts)
    from buildTrees_Inr_capacity [OF this] short show ?thesis
      by (meson not_le)
  qed
next
  assume f: "buildTrees spare provinces cities areas streets = Inl e"
  then show "main spare created accepts provinces cities areas streets = Inl e"
    by (simp add: main_def)
  from buildTrees_Inl_runtime [OF f]
  show "(\<exists>n k. e = SliceBounds n k \<and> k < n) \<or> (\<exists>i k. e = IndexRange i k \<and> k \<le> i)"
    by (simp add: runtime_panic_def)
qed

theorem short_code_stops_build_witness:
  "capacity no_spare (flat_Code \<lparr>flat_Code = ''1'', flat_Name = ''B'', flat_ParentCode = ''11''\<rparr>) < 2 \<and>
   buildTrees no_spare [example_province]
     [\<lparr>flat_Code = ''1'', flat_Name = ''B'', flat_ParentCode = ''11''\<rparr>] [] [] =
     Inl (SliceBounds 2 1) \<and>
   main no_spare True sink_ok [example_province]
     [\<lparr>flat_Code = ''1'', flat_Name = ''B'', flat_ParentCode = ''11''\<rparr>] [] [] =
     Inl (SliceBounds 2 1)"
proof -
  let ?c = "\<lparr>flat_Code = ''1'', flat_Name = ''B'', flat_ParentCode = ''11''\<rparr>"
  have short: "capacity no_spare (flat_Code ?c) < 2"
    by (simp add: capacity_def no_spare_def)
  have b: "buildTrees no_spare [example_province] [?c] [] [] = Inl (SliceBounds 2 1)"
    by (simp add: build_defs example_province_def no_spare_def)
  from short_code_stops_build [where spare = no_spare and cities = "[?c]" and areas = "[]"
      and streets = "[]" and provinces = "[example_province]" and created = True
      and accepts = sink_ok and e = "SliceBounds 2 1"] short b
  show ?thesis by simp
qed

text \<open>
  Claim C6 as stated fails. With no spare capacity, a city with the one-character code "1"
  and another city with the code "2" end the run with the same value, a slice-bounds panic
  "2 beyond 1": no diagnostic tells which record was malformed. With the spare capacity of
  a zeroed 32-byte buffer the run does not stop at all: the code "1" resolves with a zero
  byte in it and the city is attached to the first province.
\<close>

theorem short_code_panic_is_opaque:
  "main no_spare True sink_ok [example_province]
     [\<lparr>flat_Code = ''1'', flat_Name = ''B'', flat_ParentCode = ''11''\<rparr>] [] [] =
     Inl (SliceBounds 2 1) \<and>
   main no_spare True sink_ok [example_province]
     [\<lparr>flat_Code = ''2'', flat_Name = ''X'', flat_ParentCode = ''22''\<rparr>] [] [] =
     Inl (SliceBounds 2 1) \<and>
   buildTrees zero_spare [example_province]
     [\<lparr>flat_Code = ''1'', flat_Name = ''B'', flat_ParentCode = ''11''\<rparr>] [] [] =
     Inr [Area ''11'' ''A'' ''0'' 0 0 [Area ''1'' ''B'' ''11'' 0 0 []]]"
  by (simp add: main_def build_defs example_province_def no_spare_def zero_spare_def)

subsection \<open>Records with a missing parent\<close>

lemma prefix_kids_length:
  "prefix (children_fields a) (children_fields b) \<Longrightarrow> length (SubAreas a) \<le> length (SubAreas b)"
  using prefix_length_le [of "children_fields a" "children_fields b"]
  by (simp add: children_fields_def)

lemma ext3_refl: "ext3 a a"
  by (simp add: ext3_def)

lemma ext2_refl: "ext2 c c"
  by (simp add: ext2_def ext3_refl)

lemma ext1_refl: "ext1 p p"
  by (simp add: ext1_def ext2_refl)

lemma extends_refl: "extends ts ts"
  by (simp add: extends_def ext1_refl)

lemma ext3_trans: "ext3 a b \<Longrightarrow> ext3 b c \<Longrightarrow> ext3 a c"
  unfolding ext3_def by (rule prefix_order.trans)

lemma ext2_trans:
  assumes "ext2 a b" "ext2 b c"
  shows "ext2 a c"
  unfolding ext2_def
proof (intro conjI allI impI)
  from assms show "prefix (children_fields a) (children_fields c)"
    unfolding ext2_def by (blast intro: prefix_order.trans)
next
  fix h assume h: "h < length (SubAreas a)"
  from assms(1) have "length (SubAreas a) \<le> length (SubAreas b)"
    unfolding ext2_def by (blast intro: prefix_kids_length)
  with h have hb: "h < length (SubAreas b)" by simp
  from assms(1) h have "ext3 (SubAreas a ! h) (SubAreas b ! h)" unfolding ext2_def by blast
  moreover from assms(2) hb have "ext3 (SubAreas b ! h) (SubAreas c ! h)"
    unfolding ext2_def by blast
  ultimately show "ext3 (SubAreas a ! h) (SubAreas c ! h)" by (rule ext3_trans)
qed

lemma ext1_trans:
  assumes "ext1 a b" "ext1 b c"
  shows "ext1 a c"
  unfolding ext1_def
proof (intro conjI allI impI)
  from assms show "prefix (children_fields a) (children_fields c)"
    unfolding ext1_def by (blast intro: prefix_order.trans)
next
  fix h assume h: "h < length (SubAreas a)"
  from assms(1) have "length (SubAreas a) \<le> length (SubAreas b)"
    unfolding ext1_def by (blast intro: prefix_kids_length)
  with h have hb: "h < length (SubAreas b)" by simp
  from assms(1) h have "ext2 (SubAreas a ! h) (SubAreas b ! h)" unfolding ext1_def by blast
  moreover from assms(2) hb have "ext2 (SubAreas b ! h) (SubAreas c ! h)"
    unfolding ext1_def by blast
  ultimately show "ext2 (SubAreas a ! h) (SubAreas c ! h)" by (rule ext2_trans)
qed

lemma extends_trans:
  assumes "extends a b" "extends b c"
  shows "extends a c"
  unfolding extends_def
proof (intro conjI allI impI)
  from assms show "length c = length a" by (simp add: extends_def)
next
  fix i assume i: "i < length a"
  with assms(1) have "ext1 (a ! i) (b ! i)" and "i < length b" by (simp_all add: extends_def)
  moreover with assms(2) have "ext1 (b ! i) (c ! i)" by (simp add: extends_def)
  ultimately show "ext1 (a ! i) (c ! i)" by (blast intro: ext1_trans)
qed

lemma extends_grows: "extends ts ts' \<Longrightarrow> grows ts ts'"
  unfolding extends_def grows_def ext1_def ext2_def
  by (auto dest: prefix_kids_length)

lemma children_fields_appendSub [simp]:
  "children_fields (appendSub a n) = children_fields a @ [node_fields n]"
  by (simp add: children_fields_def)

lemma children_fields_setSubs_update [simp]:
  "node_fields y = node_fields (SubAreas a ! h) \<Longrightarrow>
     children_fields (setSubs a ((SubAreas a)[h := y])) = children_fields a"
  by (simp add: children_fields_def map_fields_update)

lemma ext3_append: "ext3 a (appendSub a n)"
  by (simp add: ext3_def)

lemma ext2_append: "ext2 c (appendSub c n)"
  by (simp add: ext2_def nth_append ext3_refl)

lemma ext1_append: "ext1 p (appendSub p n)"
  by (simp add: ext1_def nth_append ext2_refl)

lemma nth_update_any: "xs[i := x] ! j = (if i = j \<and> i < length xs then x else xs ! j)"
  by (cases "i < length xs") (simp_all add: nth_list_update list_update_beyond)

lemma ext2_child:
  assumes "ext3 (SubAreas c ! h) y" "node_fields y = node_fields (SubAreas c ! h)"
  shows "ext2 c (setSubs c ((SubAreas c)[h := y]))"
  using assms by (auto simp: ext2_def nth_update_any ext3_refl)

lemma ext1_child:
  assumes "ext2 (SubAreas p ! j) y" "node_fields y = node_fields (SubAreas p ! j)"
  shows "ext1 p (setSubs p ((SubAreas p)[j := y]))"
  using assms by (auto simp: ext1_def nth_update_any ext2_refl)

lemma extends_update:
  assumes "ext1 (ts ! i) y"
  shows "extends ts (ts[i := y])"
  using assms by (auto simp: extends_def nth_update_any ext1_refl)

lemma extends_add_city: "extends ts (add_city n ts i)"
  unfolding add_city_def by (rule extends_update) (rule ext1_append)

lemma extends_add_area: "extends ts (add_area n ts i j)"
  unfolding add_area_def
  by (rule extends_update, rule ext1_child, rule ext2_append) simp

lemma extends_add_street: "extends ts (add_street n ts i j h)"
  unfolding add_street_def
  by (rule extends_update, rule ext1_child, rule ext2_child, rule ext3_append) simp_all

lemma loop_snoc:
  "loop body s (xs @ [x]) = (case loop body s xs of Inl e \<Rightarrow> Inl e | Inr s' \<Rightarrow> body s' x)"
  by (induction xs arbitrary: s) (simp_all split: sum.splits)

lemma loop_invariant:
  assumes step: "\<And>s x s'. I s \<Longrightarrow> body s x = Inr s' \<Longrightarrow> I s' \<and> R s s'"
    and refl: "\<And>s. R s s" and trans: "\<And>a b c. R a b \<Longrightarrow> R b c \<Longrightarrow> R a c"
    and run: "loop body s xs = Inr s'" and init: "I s"
  shows "I s' \<and> R s s'"
  using run init
proof (induction xs arbitrary: s)
  case Nil
  then show ?case by (simp add: refl)
next
  case (Cons x xs)
  from Cons.prems(1) obtain s1 where a: "body s x = Inr s1" and b: "loop body s1 xs = Inr s'"
    by (auto split: sum.splits)
  from step [OF Cons.prems(2) a] have "I s1" "R s s1" by simp_all
  from Cons.IH [OF b this(1)] this(2) show ?case by (blast intro: trans)
qed

lemma loop_visits:
  assumes step: "\<And>s x s'. I s \<Longrightarrow> body s x = Inr s' \<Longrightarrow> I s' \<and> R s s'"
    and refl: "\<And>s. R s s" and trans: "\<And>a b c. R a b \<Longrightarrow> R b c \<Longrightarrow> R a c"
    and run: "loop body s xs = Inr s'" and init: "I s" and x: "x \<in> set xs"
  shows "\<exists>s1 s2. I s1 \<and> body s1 x = Inr s2 \<and> R s2 s'"
  using run init x
proof (induction xs arbitrary: s)
  case Nil
  then show ?case by simp
next
  case (Cons y xs)
  from Cons.prems(1) obtain s1 where a: "body s y = Inr s1" and b: "loop body s1 xs = Inr s'"
    by (auto split: sum.splits)
  from step [OF Cons.prems(2) a] have s1: "I s1" by simp
  show ?case
  proof (cases "x \<in> set xs")
    case True
    from Cons.IH [OF b s1 True] show ?thesis .
  next
    case False
    with Cons.prems(3) have "x = y" by simp
    moreover have "I s' \<and> R s1 s'"
    proof (rule loop_invariant [where I = I and R = R and body = body and s = s1 and xs = xs])
      show "I t \<Longrightarrow> body t z = Inr t' \<Longrightarrow> I t' \<and> R t t'" for t z t' by (rule step)
      show "R t t" for t by (rule refl)
      show "R a b \<Longrightarrow> R b c \<Longrightarrow> R a c" for a b c by (rule trans)
      show "loop body s1 xs = Inr s'" by (rule b)
      show "I s1" by (rule s1)
    qed
    ultimately show ?thesis using a Cons.prems(2) by blast
  qed
qed

lemma loop_fails:
  assumes step: "\<And>s x s'. I s \<Longrightarrow> body s x = Inr s' \<Longrightarrow> I s'"
    and run: "loop body s xs = Inl e" and init: "I s"
  shows "\<exists>s1 x. I s1 \<and> x \<in> set xs \<and> body s1 x = Inl e"
  using run init
proof (induction xs arbitrary: s)
  case Nil
  then show ?case by simp
next
  case (Cons y xs)
  show ?case
  proof (cases "body s y")
    case (Inl e')
    with Cons.prems show ?thesis by auto
  next
    case (Inr s1)
    with Cons.prems(1) have "loop body s1 xs = Inl e" by simp
    from Cons.IH [OF this step [OF Cons.prems(2) Inr]] show ?thesis by auto
  qed
qed

lemma loop_collects:
  assumes step: "\<And>s x s'. body s x = Inr s' \<Longrightarrow> D s' = insert (g x) (D s)"
    and run: "loop body s xs = Inr s'"
  shows "D s' = D s \<union> g ` set xs"
  using run
proof (induction xs arbitrary: s)
  case Nil
  then show ?case by simp
next
  case (Cons x xs)
  then obtain s1 where a: "body s x = Inr s1" and b: "loop body s1 xs = Inr s'"
    by (auto split: sum.splits)
  from step [OF a] Cons.IH [OF b] show ?case by auto
qed

lemma slice_to_Inl_form: "slice_to b behind n = Inl e \<Longrightarrow> \<exists>k. e = SliceBounds n k \<and> k < n"
  by (auto simp: slice_to_def split: if_splits)

lemma resolver_Inl_form:
  "getProvince spare code = Inl e \<Longrightarrow> \<exists>n k. e = SliceBounds n k \<and> k < n"
  "getCity spare code = Inl e \<Longrightarrow> \<exists>n k. e = SliceBounds n k \<and> k < n"
  "getArea spare code = Inl e \<Longrightarrow> \<exists>n k. e = SliceBounds n k \<and> k < n"
  by (auto simp: getProvince_def getCity_def getArea_def Let_def
      dest: slice_to_Inl_form split: sum.splits)

lemma cityStep_Inr:
  "cityStep spare po (trees, co) c = Inr (trees', co') \<longleftrightarrow>
     (\<exists>pc. getProvince spare (flat_Code c) = Inr pc \<and> lookup po pc < length trees \<and>
        trees' = add_city (newArea (flat_Code c) (flat_Name c) (flat_ParentCode c)) trees
                   (lookup po pc) \<and>
        co' = co(flat_Code c \<mapsto> length (SubAreas (trees ! lookup po pc))))"
  by (auto simp: cityStep_def at_def add_city_def Let_def split: sum.splits)

lemma areaStep_Inr:
  "areaStep spare po co (trees, ao) a = Inr (trees', ao') \<longleftrightarrow>
     (\<exists>pc cc. getProvince spare (flat_Code a) = Inr pc \<and> getCity spare (flat_Code a) = Inr cc \<and>
        lookup po pc < length trees \<and> lookup co cc < length (SubAreas (trees ! lookup po pc)) \<and>
        trees' = add_area (newArea (flat_Code a) (flat_Name a) (flat_ParentCode a)) trees
                   (lookup po pc) (lookup co cc) \<and>
        ao' = ao(flat_Code a \<mapsto>
                length (SubAreas (SubAreas (trees ! lookup po pc) ! lookup co cc))))"
  by (auto simp: areaStep_def at_def add_area_def Let_def split: sum.splits)

lemma streetStep_Inr:
  "streetStep spare po co ao trees s = Inr trees' \<longleftrightarrow>
     (\<exists>pc cc ac. getProvince spare (flat_Code s) = Inr pc \<and>
        getCity spare (flat_Code s) = Inr cc \<and> getArea spare (flat_Code s) = Inr ac \<and>
        lookup po pc < length trees \<and> lookup co cc < length (SubAreas (trees ! lookup po pc)) \<and>
        lookup ao ac < length (SubAreas (SubAreas (trees ! lookup po pc) ! lookup co cc)) \<and>
        trees' = add_street (newArea (flat_Code s) (flat_Name s) (flat_ParentCode s)) trees
                   (lookup po pc) (lookup co cc) (lookup ao ac))"
  by (auto simp: streetStep_def at_def add_street_def Let_def split: sum.splits)

lemma cityStep_Inl:
  "cityStep spare po (trees, co) c = Inl e \<longleftrightarrow>
     getProvince spare (flat_Code c) = Inl e \<or>
     (\<exists>pc. getProvince spare (flat_Code c) = Inr pc \<and> length trees \<le> lookup po pc \<and>
        e = IndexRange (lookup po pc) (length trees))"
  by (auto simp: cityStep_def at_def Let_def split: sum.splits)

lemma areaStep_Inl:
  "areaStep spare po co (trees, ao) a = Inl e \<longleftrightarrow>
     getProvince spare (flat_Code a) = Inl e \<or>
     (\<exists>pc. getProvince spare (flat_Code a) = Inr pc \<and> getCity spare (flat_Code a) = Inl e) \<or>
     (\<exists>pc cc. getProvince spare (flat_Code a) = Inr pc \<and> getCity spare (flat_Code a) = Inr cc \<and>
        (length trees \<le> lookup po pc \<and> e = IndexRange (lookup po pc) (length trees) \<or>
         lookup po pc < length trees \<and>
         length (SubAreas (trees ! lookup po pc)) \<le> lookup co cc \<and>
         e = IndexRange (lookup co cc) (length (SubAreas (trees ! lookup po pc)))))"
  by (auto simp: areaStep_def at_def Let_def split: sum.splits)

lemma streetStep_Inl:
  "streetStep spare po co ao trees s = Inl e \<longleftrightarrow>
     getProvince spare (flat_Code s) = Inl e \<or>
     (\<exists>pc. getProvince spare (flat_Code s) = Inr pc \<and> getCity spare (flat_Code s) = Inl e) \<or>
     (\<exists>pc cc. getProvince spare (flat_Code s) = Inr pc \<and> getCity spare (flat_Code s) = Inr cc \<and>
        getArea spare (flat_Code s) = Inl e) \<or>
     (\<exists>pc cc ac. getProvince spare (flat_Code s) = Inr pc \<and>
        getCity spare (flat_Code s) = Inr cc \<and> getArea spare (flat_Code s) = Inr ac \<and>
        (length trees \<le> lookup po pc \<and> e = IndexRange (lookup po pc) (length trees) \<or>
         lookup po pc < length trees \<and>
         length (SubAreas (trees ! lookup po pc)) \<le> lookup co cc \<and>
         e = IndexRange (lookup co cc) (length (SubAreas (trees ! lookup po pc))) \<or>
         lookup po pc < length trees \<and>
         lookup co cc < length (SubAreas (trees ! lookup po pc)) \<and>
         length (SubAreas (SubAreas (trees ! lookup po pc) ! lookup co cc)) \<le> lookup ao ac \<and>
         e = IndexRange (lookup ao ac)
               (length (SubAreas (SubAreas (trees ! lookup po pc) ! lookup co cc)))))"
  by (auto simp: streetStep_def at_def Let_def split: sum.splits)

text \<open>Where a lookup lands.\<close>

lemma lookup_None: "m k = None \<Longrightarrow> lookup m k = 0"
  by (simp add: lookup_def)

lemma province_lookup:
  assumes "province_table_ok po trees"
  shows "lookup po pc < length trees \<longleftrightarrow> trees \<noteq> []"
    and "length trees \<le> lookup po pc \<Longrightarrow> po pc = None \<and> lookup po pc = 0 \<and> trees = []"
proof -
  have some: "i < length trees" if "po pc = Some i" for i
    using assms that unfolding province_table_ok_def by blast
  show "lookup po pc < length trees \<longleftrightarrow> trees \<noteq> []"
    using some by (cases "po pc") (auto simp: lookup_def)
  show "po pc = None \<and> lookup po pc = 0 \<and> trees = []" if "length trees \<le> lookup po pc"
    using some that by (cases "po pc") (auto simp: lookup_def)
qed

lemma city_lookup:
  assumes ok: "city_table_ok spare po co trees"
    and g: "getProvince spare code = Inr pc" "getCity spare code = Inr cc"
  shows "lookup co cc < length (SubAreas (trees ! lookup po pc)) \<longleftrightarrow>
           SubAreas (trees ! lookup po pc) \<noteq> []"
    and "length (SubAreas (trees ! lookup po pc)) \<le> lookup co cc \<Longrightarrow>
           co cc = None \<and> lookup co cc = 0 \<and> SubAreas (trees ! lookup po pc) = []"
    and "co cc \<noteq> None \<Longrightarrow> lookup po pc < length trees"
proof -
  from prefix_consistent [OF g(2)] g(1) have gc: "getProvince spare cc = Inr pc" by auto
  have some: "j < length (SubAreas (trees ! lookup po pc)) \<and> lookup po pc < length trees"
    if "co cc = Some j" for j
    using ok that gc unfolding city_table_ok_def by fastforce
  show "lookup co cc < length (SubAreas (trees ! lookup po pc)) \<longleftrightarrow>
           SubAreas (trees ! lookup po pc) \<noteq> []"
    using some by (cases "co cc") (auto simp: lookup_def)
  show "co cc = None \<and> lookup co cc = 0 \<and> SubAreas (trees ! lookup po pc) = []"
    if "length (SubAreas (trees ! lookup po pc)) \<le> lookup co cc"
    using some that by (cases "co cc") (auto simp: lookup_def)
  show "lookup po pc < length trees" if "co cc \<noteq> None"
    using some that by auto
qed

lemma area_lookup:
  assumes ok: "area_table_ok spare po co ao trees"
    and g: "getProvince spare code = Inr pc" "getCity spare code = Inr cc"
      "getArea spare code = Inr ac"
  shows "lookup ao ac < length (SubAreas (SubAreas (trees ! lookup po pc) ! lookup co cc)) \<longleftrightarrow>
           SubAreas (SubAreas (trees ! lookup po pc) ! lookup co cc) \<noteq> []"
    and "length (SubAreas (SubAreas (trees ! lookup po pc) ! lookup co cc)) \<le> lookup ao ac \<Longrightarrow>
           ao ac = None \<and> lookup ao ac = 0 \<and>
           SubAreas (SubAreas (trees ! lookup po pc) ! lookup co cc) = []"
    and "ao ac \<noteq> None \<Longrightarrow> lookup po pc < length trees \<and>
           lookup co cc < length (SubAreas (trees ! lookup po pc))"
proof -
  from prefix_consistent_area [OF g(3)] g(1,2)
  have gc: "getProvince spare ac = Inr pc" "getCity spare ac = Inr cc" by auto
  have some: "h < length (SubAreas (SubAreas (trees ! lookup po pc) ! lookup co cc)) \<and>
      lookup po pc < length trees \<and> lookup co cc < length (SubAreas (trees ! lookup po pc))"
    if "ao ac = Some h" for h
    using ok that gc unfolding area_table_ok_def by fastforce
  show "lookup ao ac < length (SubAreas (SubAreas (trees ! lookup po pc) ! lookup co cc)) \<longleftrightarrow>
           SubAreas (SubAreas (trees ! lookup po pc) ! lookup co cc) \<noteq> []"
    using some by (cases "ao ac") (auto simp: lookup_def)
  show "ao ac = None \<and> lookup ao ac = 0 \<and>
           SubAreas (SubAreas (trees ! lookup po pc) ! lookup co cc) = []"
    if "length (SubAreas (SubAreas (trees ! lookup po pc) ! lookup co cc)) \<le> lookup ao ac"
    using some that by (cases "ao ac") (auto simp: lookup_def)
  show "lookup po pc < length trees \<and>
           lookup co cc < length (SubAreas (trees ! lookup po pc))" if "ao ac \<noteq> None"
    using some that by auto
qed

lemma length_add [simp]:
  "length (add_city n ts i) = length ts"
  "length (add_area n ts i j) = length ts"
  "length (add_street n ts i j h) = length ts"
  by (simp_all add: add_city_def add_area_def add_street_def)

lemma add_city_at:
  "i < length ts \<Longrightarrow> SubAreas (add_city n ts i ! i) = SubAreas (ts ! i) @ [n]"
  by (simp add: add_city_def)

lemma add_area_at:
  "i < length ts \<Longrightarrow> j < length (SubAreas (ts ! i)) \<Longrightarrow>
     length (SubAreas (add_area n ts i j ! i)) = length (SubAreas (ts ! i)) \<and>
     SubAreas (SubAreas (add_area n ts i j ! i) ! j) = SubAreas (SubAreas (ts ! i) ! j) @ [n]"
  by (simp add: add_area_def)

lemma add_street_at:
  "i < length ts \<Longrightarrow> j < length (SubAreas (ts ! i)) \<Longrightarrow>
   h < length (SubAreas (SubAreas (ts ! i) ! j)) \<Longrightarrow>
     length (SubAreas (add_street n ts i j h ! i)) = length (SubAreas (ts ! i)) \<and>
     length (SubAreas (SubAreas (add_street n ts i j h ! i) ! j)) =
       length (SubAreas (SubAreas (ts ! i) ! j)) \<and>
     SubAreas (SubAreas (SubAreas (add_street n ts i j h ! i) ! j) ! h) =
       SubAreas (SubAreas (SubAreas (ts ! i) ! j) ! h) @ [n]"
  by (simp add: add_street_def)

lemma province_table_extends:
  "province_table_ok po ts \<Longrightarrow> extends ts ts' \<Longrightarrow> province_table_ok po ts'"
  by (simp add: province_table_ok_def extends_def)

lemma tables_extends:
  "tables_ok spare po co ao ts \<Longrightarrow> extends ts ts' \<Longrightarrow> tables_ok spare po co ao ts'"
  unfolding tables_ok_def
  by (blast intro: province_table_extends city_table_grows area_table_grows extends_grows)

lemma cityStep_keeps:
  assumes step: "cityStep spare po (trees, co) c = Inr (trees', co')"
    and ok: "tables_ok spare po co Map.empty trees"
  shows "tables_ok spare po co' Map.empty trees' \<and> extends trees trees'"
proof -
  let ?new = "newArea (flat_Code c) (flat_Name c) (flat_ParentCode c)"
  from step obtain pc where g: "getProvince spare (flat_Code c) = Inr pc"
    and i: "lookup po pc < length trees"
    and t': "trees' = add_city ?new trees (lookup po pc)"
    and co': "co' = co(flat_Code c \<mapsto> length (SubAreas (trees ! lookup po pc)))"
    by (auto simp: cityStep_Inr)
  have ext: "extends trees trees'" unfolding t' by (rule extends_add_city)
  from tables_extends [OF ok ext] have ok': "tables_ok spare po co Map.empty trees'" .
  have "city_table_ok spare po co' trees'"
    unfolding city_table_ok_def
  proof (intro allI impI)
    fix k j assume kj: "co' k = Some j"
    show "\<exists>pc. getProvince spare k = Inr pc \<and> lookup po pc < length trees' \<and>
              j < length (SubAreas (trees' ! lookup po pc))"
    proof (cases "k = flat_Code c")
      case True
      with kj co' have "j = length (SubAreas (trees ! lookup po pc))" by simp
      with True g i show ?thesis
        by (intro exI [of _ pc]) (simp add: t' add_city_at)
    next
      case False
      with kj co' have "co k = Some j" by simp
      with ok' show ?thesis unfolding tables_ok_def city_table_ok_def by blast
    qed
  qed
  with ok' ext show ?thesis by (simp add: tables_ok_def area_table_ok_def)
qed

lemma cityStep_dom:
  "cityStep spare po s c = Inr s' \<Longrightarrow> dom (snd s') = insert (flat_Code c) (dom (snd s))"
  by (cases s, cases s') (auto simp: cityStep_Inr)

lemma areaStep_keeps:
  assumes step: "areaStep spare po co (trees, ao) a = Inr (trees', ao')"
    and ok: "tables_ok spare po co ao trees"
  shows "tables_ok spare po co ao' trees' \<and> extends trees trees'"
proof -
  let ?new = "newArea (flat_Code a) (flat_Name a) (flat_ParentCode a)"
  from step obtain pc cc where g: "getProvince spare (flat_Code a) = Inr pc"
    "getCity spare (flat_Code a) = Inr cc"
    and i: "lookup po pc < length trees"
    and j: "lookup co cc < length (SubAreas (trees ! lookup po pc))"
    and t': "trees' = add_area ?new trees (lookup po pc) (lookup co cc)"
    and ao': "ao' = ao(flat_Code a \<mapsto>
        length (SubAreas (SubAreas (trees ! lookup po pc) ! lookup co cc)))"
    by (auto simp: areaStep_Inr)
  have ext: "extends trees trees'" unfolding t' by (rule extends_add_area)
  from tables_extends [OF ok ext] have ok': "tables_ok spare po co ao trees'" .
  have "area_table_ok spare po co ao' trees'"
    unfolding area_table_ok_def
  proof (intro allI impI)
    fix k h assume kh: "ao' k = Some h"
    show "\<exists>pc cc. getProvince spare k = Inr pc \<and> getCity spare k = Inr cc \<and>
           lookup po pc < length trees' \<and>
           lookup co cc < length (SubAreas (trees' ! lookup po pc)) \<and>
           h < length (SubAreas (SubAreas (trees' ! lookup po pc) ! lookup co cc))"
    proof (cases "k = flat_Code a")
      case True
      with kh ao' have "h = length (SubAreas (SubAreas (trees ! lookup po pc) ! lookup co cc))"
        by simp
      with True g i j show ?thesis
        by (intro exI [of _ pc] exI [of _ cc]) (simp add: t' add_area_at)
    next
      case False
      with kh ao' have "ao k = Some h" by simp
      with ok' show ?thesis unfolding tables_ok_def area_table_ok_def by blast
    qed
  qed
  with ok' ext show ?thesis by (simp add: tables_ok_def)
qed

lemma areaStep_dom:
  "areaStep spare po co s a = Inr s' \<Longrightarrow> dom (snd s') = insert (flat_Code a) (dom (snd s))"
  by (cases s, cases s') (auto simp: areaStep_Inr)

lemma streetStep_keeps:
  assumes step: "streetStep spare po co ao trees s = Inr trees'"
    and ok: "tables_ok spare po co ao trees"
  shows "tables_ok spare po co ao trees' \<and> extends trees trees'"
proof -
  from step have "extends trees trees'"
    by (auto simp: streetStep_Inr extends_add_street)
  with tables_extends [OF ok] show ?thesis by simp
qed

text \<open>Where a step whose last lookup finds no entry puts its record, and when it stops.\<close>

lemma cityStep_missing:
  assumes "getProvince spare (flat_Code c) = Inr pc" "po pc = None"
  shows "cityStep spare po (trees, co) c =
     (if trees = [] then Inl (IndexRange 0 0)
      else Inr (add_city (newArea (flat_Code c) (flat_Name c) (flat_ParentCode c)) trees 0,
                co(flat_Code c \<mapsto> length (SubAreas (trees ! 0)))))"
  using assms by (simp add: cityStep_def at_def lookup_def add_city_def)

lemma areaStep_missing:
  assumes g: "getProvince spare (flat_Code a) = Inr pc" "getCity spare (flat_Code a) = Inr cc"
    and miss: "co cc = None" and ok: "province_table_ok po trees"
  shows "areaStep spare po co (trees, ao) a =
     (if trees = [] \<or> SubAreas (trees ! lookup po pc) = [] then Inl (IndexRange 0 0)
      else Inr (add_area (newArea (flat_Code a) (flat_Name a) (flat_ParentCode a)) trees
                  (lookup po pc) 0,
                ao(flat_Code a \<mapsto> length (SubAreas (SubAreas (trees ! lookup po pc) ! 0)))))"
proof (cases "trees = []")
  case True
  with province_lookup(2) [OF ok, of pc] have "lookup po pc = 0" by simp
  with True g show ?thesis by (simp add: areaStep_def at_def)
next
  case False
  with province_lookup(1) [OF ok, of pc] have "lookup po pc < length trees" by simp
  with False g miss show ?thesis
    by (simp add: areaStep_def at_def lookup_None add_area_def)
qed

lemma streetStep_missing:
  assumes g: "getProvince spare (flat_Code s) = Inr pc" "getCity spare (flat_Code s) = Inr cc"
    "getArea spare (flat_Code s) = Inr ac"
    and miss: "ao ac = None" and ok: "province_table_ok po trees"
    and cok: "city_table_ok spare po co trees"
  shows "streetStep spare po co ao trees s =
     (if trees = [] \<or> SubAreas (trees ! lookup po pc) = [] \<or>
         SubAreas (SubAreas (trees ! lookup po pc) ! lookup co cc) = []
      then Inl (IndexRange 0 0)
      else Inr (add_street (newArea (flat_Code s) (flat_Name s) (flat_ParentCode s)) trees
                  (lookup po pc) (lookup co cc) 0))"
proof (cases "trees = []")
  case True
  with province_lookup(2) [OF ok, of pc] have "lookup po pc = 0" by simp
  with True g show ?thesis by (simp add: streetStep_def at_def)
next
  case False
  with province_lookup(1) [OF ok, of pc] have i: "lookup po pc < length trees" by simp
  show ?thesis
  proof (cases "SubAreas (trees ! lookup po pc) = []")
    case True
    with city_lookup(2) [OF cok g(1,2)] have "lookup co cc = 0" by simp
    with True False i g show ?thesis by (simp add: streetStep_def at_def)
  next
    case sub: False
    with city_lookup(1) [OF cok g(1,2)]
    have j: "lookup co cc < length (SubAreas (trees ! lookup po pc))" by simp
    from False sub i j g miss show ?thesis
      by (simp add: streetStep_def at_def lookup_None add_street_def)
  qed
qed

text \<open>What stops a step.\<close>

lemma cityStep_stops:
  assumes "cityStep spare po (trees, co) c = Inl e" "tables_ok spare po co Map.empty trees"
  shows "(\<exists>n k. e = SliceBounds n k \<and> k < n) \<or>
     (e = IndexRange 0 0 \<and> (\<exists>pc. getProvince spare (flat_Code c) = Inr pc \<and> po pc = None))"
proof -
  from assms(2) have ok: "province_table_ok po trees" by (simp add: tables_ok_def)
  from assms(1) show ?thesis
    unfolding cityStep_Inl
  proof (elim disjE exE conjE)
    assume "getProvince spare (flat_Code c) = Inl e"
    then show ?thesis by (blast dest: resolver_Inl_form)
  next
    fix pc assume g: "getProvince spare (flat_Code c) = Inr pc"
      and "length trees \<le> lookup po pc" and e: "e = IndexRange (lookup po pc) (length trees)"
    from province_lookup(2) [OF ok this(2)] g e show ?thesis by simp
  qed
qed

lemma areaStep_stops:
  assumes "areaStep spare po co (trees, ao) a = Inl e" "tables_ok spare po co ao trees"
  shows "(\<exists>n k. e = SliceBounds n k \<and> k < n) \<or>
     (e = IndexRange 0 0 \<and> (\<exists>cc. getCity spare (flat_Code a) = Inr cc \<and> co cc = None))"
proof -
  from assms(2) have ok: "province_table_ok po trees" and cok: "city_table_ok spare po co trees"
    by (simp_all add: tables_ok_def)
  from assms(1) show ?thesis
    unfolding areaStep_Inl
  proof (elim disjE exE conjE)
    assume "getProvince spare (flat_Code a) = Inl e"
    then show ?thesis by (blast dest: resolver_Inl_form)
  next
    fix pc assume "getCity spare (flat_Code a) = Inl e"
    then show ?thesis by (blast dest: resolver_Inl_form)
  next
    fix pc cc assume g: "getProvince spare (flat_Code a) = Inr pc"
      "getCity spare (flat_Code a) = Inr cc"
      and le: "length trees \<le> lookup po pc"
      and e: "e = IndexRange (lookup po pc) (length trees)"
    from province_lookup(2) [OF ok le] have z: "lookup po pc = 0" "trees = []" by simp_all
    from city_lookup(3) [OF cok g] le have "co cc = None" by (cases "co cc") auto
    with z e g show ?thesis by simp
  next
    fix pc cc assume g: "getProvince spare (flat_Code a) = Inr pc"
      "getCity spare (flat_Code a) = Inr cc"
      and le: "length (SubAreas (trees ! lookup po pc)) \<le> lookup co cc"
      and e: "e = IndexRange (lookup co cc) (length (SubAreas (trees ! lookup po pc)))"
    from city_lookup(2) [OF cok g le] e g show ?thesis by simp
  qed
qed

lemma streetStep_stops:
  assumes "streetStep spare po co ao trees s = Inl e" "tables_ok spare po co ao trees"
  shows "(\<exists>n k. e = SliceBounds n k \<and> k < n) \<or>
     (e = IndexRange 0 0 \<and> (\<exists>ac. getArea spare (flat_Code s) = Inr ac \<and> ao ac = None))"
proof -
  from assms(2) have ok: "province_table_ok po trees" and cok: "city_table_ok spare po co trees"
    and aok: "area_table_ok spare po co ao trees"
    by (simp_all add: tables_ok_def)
  from assms(1) show ?thesis
    unfolding streetStep_Inl
  proof (elim disjE exE conjE)
    assume "getProvince spare (flat_Code s) = Inl e"
    then show ?thesis by (blast dest: resolver_Inl_form)
  next
    fix pc assume "getCity spare (flat_Code s) = Inl e"
    then show ?thesis by (blast dest: resolver_Inl_form)
  next
    fix pc cc assume "getArea spare (flat_Code s) = Inl e"
    then show ?thesis by (blast dest: resolver_Inl_form)
  next
    fix pc cc ac assume g: "getProvince spare (flat_Code s) = Inr pc"
      "getCity spare (flat_Code s) = Inr cc" "getArea spare (flat_Code s) = Inr ac"
      and le: "length trees \<le> lookup po pc"
      and e: "e = IndexRange (lookup po pc) (length trees)"
    from province_lookup(2) [OF ok le] have z: "lookup po pc = 0" "trees = []" by simp_all
    from area_lookup(3) [OF aok g] le have "ao ac = None" by (cases "ao ac") auto
    with z e g show ?thesis by simp
  next
    fix pc cc ac assume g: "getProvince spare (flat_Code s) = Inr pc"
      "getCity spare (flat_Code s) = Inr cc" "getArea spare (flat_Code s) = Inr ac"
      and le: "length (SubAreas (trees ! lookup po pc)) \<le> lookup co cc"
      and e: "e = IndexRange (lookup co cc) (length (SubAreas (trees ! lookup po pc)))"
    from city_lookup(2) [OF cok g(1,2) le]
    have z: "lookup co cc = 0" "SubAreas (trees ! lookup po pc) = []" by simp_all
    from area_lookup(3) [OF aok g] le have "ao ac = None" by (cases "ao ac") auto
    with z e g show ?thesis by simp
  next
    fix pc cc ac assume g: "getProvince spare (flat_Code s) = Inr pc"
      "getCity spare (flat_Code s) = Inr cc" "getArea spare (flat_Code s) = Inr ac"
      and le: "length (SubAreas (SubAreas (trees ! lookup po pc) ! lookup co cc)) \<le> lookup ao ac"
      and e: "e = IndexRange (lookup ao ac)
               (length (SubAreas (SubAreas (trees ! lookup po pc) ! lookup co cc)))"
    from area_lookup(2) [OF aok g le] e g show ?thesis by simp
  qed
qed

lemma provinceLoop_dom:
  "dom (snd (provinceLoop i ps (t, po))) = dom po \<union> flat_Code ` set ps"
  by (induction ps arbitrary: i t po) auto

lemma province_phase:
  "provinceLoop 0 ps ([], Map.empty) =
     (map (\<lambda>p. newArea (flat_Code p) (flat_Name p) ''0'') ps, provinceTable ps)"
  "province_table_ok (provinceTable ps) (map (\<lambda>p. newArea (flat_Code p) (flat_Name p) ''0'') ps)"
  "dom (provinceTable ps) = flat_Code ` set ps"
proof -
  let ?t0 = "map (\<lambda>p. newArea (flat_Code p) (flat_Name p) ''0'') ps"
  show run: "provinceLoop 0 ps ([], Map.empty) = (?t0, provinceTable ps)"
    using provinceLoop_trees [of 0 ps "[]" Map.empty]
    by (simp add: provinceTable_def prod_eq_iff)
  from provinceLoop_table [of "[]" ps Map.empty ?t0 "provinceTable ps"] run
  show "province_table_ok (provinceTable ps) ?t0"
    by (simp add: province_table_ok_def)
  show "dom (provinceTable ps) = flat_Code ` set ps"
    using provinceLoop_dom [of 0 ps "[]" Map.empty] by (simp add: provinceTable_def)
qed

lemma buildTrees_unfold:
  "buildTrees spare ps cs as ss =
     (case loop (cityStep spare (provinceTable ps))
             (map (\<lambda>p. newArea (flat_Code p) (flat_Name p) ''0'') ps, Map.empty) cs of
        Inl e \<Rightarrow> Inl e
      | Inr (t1, co) \<Rightarrow>
        case loop (areaStep spare (provinceTable ps) co) (t1, Map.empty) as of
          Inl e \<Rightarrow> Inl e
        | Inr (t2, ao) \<Rightarrow> loop (streetStep spare (provinceTable ps) co ao) t2 ss)"
  by (simp add: buildTrees_def province_phase(1))

lemma cityTable_run:
  "loop (cityStep spare (provinceTable ps))
     (map (\<lambda>p. newArea (flat_Code p) (flat_Name p) ''0'') ps, Map.empty) cs = Inr (t1, co) \<Longrightarrow>
   cityTable spare ps cs = co"
  by (simp add: cityTable_def province_phase(1))

text \<open>The three loops keep the tables pointing into the forest, and only extend it.\<close>

lemma city_phase:
  assumes run: "loop (cityStep spare po) (t0, co0) cs = Inr (t1, co)"
    and ok: "tables_ok spare po co0 Map.empty t0"
  shows "tables_ok spare po co Map.empty t1 \<and> extends t0 t1"
    and "dom co = dom co0 \<union> flat_Code ` set cs"
proof -
  have "tables_ok spare po (snd (t1, co)) Map.empty (fst (t1, co)) \<and>
      extends (fst (t0, co0)) (fst (t1, co))"
  proof (rule loop_invariant [where body = "cityStep spare po" and xs = cs
        and I = "\<lambda>s. tables_ok spare po (snd s) Map.empty (fst s)"
        and R = "\<lambda>s s'. extends (fst s) (fst s')"])
    show "tables_ok spare po (snd s') Map.empty (fst s') \<and> extends (fst s) (fst s')"
      if "tables_ok spare po (snd s) Map.empty (fst s)" "cityStep spare po s x = Inr s'"
      for s x s'
      using cityStep_keeps [of spare po "fst s" "snd s" x "fst s'" "snd s'"] that by simp
    show "extends (fst s) (fst s)" for s :: "Area list \<times> (string \<rightharpoonup> nat)"
      by (rule extends_refl)
    show "extends (fst a) (fst c)" if "extends (fst a) (fst b)" "extends (fst b) (fst c)"
      for a b c :: "Area list \<times> (string \<rightharpoonup> nat)"
      using that by (rule extends_trans)
    show "loop (cityStep spare po) (t0, co0) cs = Inr (t1, co)" by (rule run)
    show "tables_ok spare po (snd (t0, co0)) Map.empty (fst (t0, co0))" using ok by simp
  qed
  then show "tables_ok spare po co Map.empty t1 \<and> extends t0 t1" by simp
  from loop_collects [where D = "\<lambda>s. dom (snd s)" and g = flat_Code, OF cityStep_dom run]
  show "dom co = dom co0 \<union> flat_Code ` set cs" by simp
qed

lemma city_visit:
  assumes run: "loop (cityStep spare po) (t0, co0) cs = Inr (t1, co)"
    and ok: "tables_ok spare po co0 Map.empty t0" and c: "c \<in> set cs"
  shows "\<exists>tr co1 tr' co1'. tables_ok spare po co1 Map.empty tr \<and>
     cityStep spare po (tr, co1) c = Inr (tr', co1') \<and> extends tr' t1"
proof -
  have "\<exists>s1 s2. tables_ok spare po (snd s1) Map.empty (fst s1) \<and>
      cityStep spare po s1 c = Inr s2 \<and> extends (fst s2) (fst (t1, co))"
  proof (rule loop_visits [where body = "cityStep spare po" and xs = cs
        and I = "\<lambda>s. tables_ok spare po (snd s) Map.empty (fst s)"
        and R = "\<lambda>s s'. extends (fst s) (fst s')"])
    show "tables_ok spare po (snd s') Map.empty (fst s') \<and> extends (fst s) (fst s')"
      if "tables_ok spare po (snd s) Map.empty (fst s)" "cityStep spare po s x = Inr s'"
      for s x s'
      using cityStep_keeps [of spare po "fst s" "snd s" x "fst s'" "snd s'"] that by simp
    show "extends (fst s) (fst s)" for s :: "Area list \<times> (string \<rightharpoonup> nat)"
      by (rule extends_refl)
    show "extends (fst a) (fst c)" if "extends (fst a) (fst b)" "extends (fst b) (fst c)"
      for a b c :: "Area list \<times> (string \<rightharpoonup> nat)"
      using that by (rule extends_trans)
    show "loop (cityStep spare po) (t0, co0) cs = Inr (t1, co)" by (rule run)
    show "tables_ok spare po (snd (t0, co0)) Map.empty (fst (t0, co0))" using ok by simp
    show "c \<in> set cs" by (rule c)
  qed
  then show ?thesis by auto
qed

lemma city_fail:
  assumes run: "loop (cityStep spare po) (t0, co0) cs = Inl e"
    and ok: "tables_ok spare po co0 Map.empty t0"
  shows "\<exists>tr co1 c. tables_ok spare po co1 Map.empty tr \<and> c \<in> set cs \<and>
     cityStep spare po (tr, co1) c = Inl e"
proof -
  have "\<exists>s1 x. tables_ok spare po (snd s1) Map.empty (fst s1) \<and> x \<in> set cs \<and>
      cityStep spare po s1 x = Inl e"
  proof (rule loop_fails [where body = "cityStep spare po" and xs = cs
        and I = "\<lambda>s. tables_ok spare po (snd s) Map.empty (fst s)"])
    show "tables_ok spare po (snd s') Map.empty (fst s')"
      if "tables_ok spare po (snd s) Map.empty (fst s)" "cityStep spare po s x = Inr s'"
      for s x s'
      using cityStep_keeps [of spare po "fst s" "snd s" x "fst s'" "snd s'"] that by simp
    show "loop (cityStep spare po) (t0, co0) cs = Inl e" by (rule run)
    show "tables_ok spare po (snd (t0, co0)) Map.empty (fst (t0, co0))" using ok by simp
  qed
  then show ?thesis by auto
qed

lemma area_phase:
  assumes run: "loop (areaStep spare po co) (t0, ao0) as = Inr (t1, ao)"
    and ok: "tables_ok spare po co ao0 t0"
  shows "tables_ok spare po co ao t1 \<and> extends t0 t1"
    and "dom ao = dom ao0 \<union> flat_Code ` set as"
proof -
  have "tables_ok spare po co (snd (t1, ao)) (fst (t1, ao)) \<and>
      extends (fst (t0, ao0)) (fst (t1, ao))"
  proof (rule loop_invariant [where body = "areaStep spare po co" and xs = as
        and I = "\<lambda>s. tables_ok spare po co (snd s) (fst s)"
        and R = "\<lambda>s s'. extends (fst s) (fst s')"])
    show "tables_ok spare po co (snd s') (fst s') \<and> extends (fst s) (fst s')"
      if "tables_ok spare po co (snd s) (fst s)" "areaStep spare po co s x = Inr s'"
      for s x s'
      using areaStep_keeps [of spare po co "fst s" "snd s" x "fst s'" "snd s'"] that by simp
    show "extends (fst s) (fst s)" for s :: "Area list \<times> (string \<rightharpoonup> nat)"
      by (rule extends_refl)
    show "extends (fst a) (fst c)" if "extends (fst a) (fst b)" "extends (fst b) (fst c)"
      for a b c :: "Area list \<times> (string \<rightharpoonup> nat)"
      using that by (rule extends_trans)
    show "loop (areaStep spare po co) (t0, ao0) as = Inr (t1, ao)" by (rule run)
    show "tables_ok spare po co (snd (t0, ao0)) (fst (t0, ao0))" using ok by simp
  qed
  then show "tables_ok spare po co ao t1 \<and> extends t0 t1" by simp
  from loop_collects [where D = "\<lambda>s. dom (snd s)" and g = flat_Code, OF areaStep_dom run]
  show "dom ao = dom ao0 \<union> flat_Code ` set as" by simp
qed

lemma area_visit:
  assumes run: "loop (areaStep spare po co) (t0, ao0) as = Inr (t1, ao)"
    and ok: "tables_ok spare po co ao0 t0" and a: "a \<in> set as"
  shows "\<exists>tr ao1 tr' ao1'. tables_ok spare po co ao1 tr \<and>
     areaStep spare po co (tr, ao1) a = Inr (tr', ao1') \<and> extends tr' t1"
proof -
  have "\<exists>s1 s2. tables_ok spare po co (snd s1) (fst s1) \<and>
      areaStep spare po co s1 a = Inr s2 \<and> extends (fst s2) (fst (t1, ao))"
  proof (rule loop_visits [where body = "areaStep spare po co" and xs = as
        and I = "\<lambda>s. tables_ok spare po co (snd s) (fst s)"
        and R = "\<lambda>s s'. extends (fst s) (fst s')"])
    show "tables_ok spare po co (snd s') (fst s') \<and> extends (fst s) (fst s')"
      if "tables_ok spare po co (snd s) (fst s)" "areaStep spare po co s x = Inr s'"
      for s x s'
      using areaStep_keeps [of spare po co "fst s" "snd s" x "fst s'" "snd s'"] that by simp
    show "extends (fst s) (fst s)" for s :: "Area list \<times> (string \<rightharpoonup> nat)"
      by (rule extends_refl)
    show "extends (fst a) (fst c)" if "extends (fst a) (fst b)" "extends (fst b) (fst c)"
      for a b c :: "Area list \<times> (string \<rightharpoonup> nat)"
      using that by (rule extends_trans)
    show "loop (areaStep spare po co) (t0, ao0) as = Inr (t1, ao)" by (rule run)
    show "tables_ok spare po co (snd (t0, ao0)) (fst (t0, ao0))" using ok by simp
    show "a \<in> set as" by (rule a)
  qed
  then show ?thesis by auto
qed

lemma area_fail:
  assumes run: "loop (areaStep spare po co) (t0, ao0) as = Inl e"
    and ok: "tables_ok spare po co ao0 t0"
  shows "\<exists>tr ao1 a. tables_ok spare po co ao1 tr \<and> a \<in> set as \<and>
     areaStep spare po co (tr, ao1) a = Inl e"
proof -
  have "\<exists>s1 x. tables_ok spare po co (snd s1) (fst s1) \<and> x \<in> set as \<and>
      areaStep spare po co s1 x = Inl e"
  proof (rule loop_fails [where body = "areaStep spare po co" and xs = as
        and I = "\<lambda>s. tables_ok spare po co (snd s) (fst s)"])
    show "tables_ok spare po co (snd s') (fst s')"
      if "tables_ok spare po co (snd s) (fst s)" "areaStep spare po co s x = Inr s'"
      for s x s'
      using areaStep_keeps [of spare po co "fst s" "snd s" x "fst s'" "snd s'"] that by simp
    show "loop (areaStep spare po co) (t0, ao0) as = Inl e" by (rule run)
    show "tables_ok spare po co (snd (t0, ao0)) (fst (t0, ao0))" using ok by simp
  qed
  then show ?thesis by auto
qed

lemma street_phase:
  assumes run: "loop (streetStep spare po co ao) t0 ss = Inr t1"
    and ok: "tables_ok spare po co ao t0"
  shows "tables_ok spare po co ao t1 \<and> extends t0 t1"
proof (rule loop_invariant [where body = "streetStep spare po co ao" and xs = ss
      and I = "tables_ok spare po co ao" and R = extends])
  show "tables_ok spare po co ao s' \<and> extends s s'"
    if "tables_ok spare po co ao s" "streetStep spare po co ao s x = Inr s'" for s x s'
    using streetStep_keeps that by blast
  show "extends s s" for s by (rule extends_refl)
  show "extends a c" if "extends a b" "extends b c" for a b c
    using that by (rule extends_trans)
  show "loop (streetStep spare po co ao) t0 ss = Inr t1" by (rule run)
  show "tables_ok spare po co ao t0" by (rule ok)
qed

lemma street_visit:
  assumes run: "loop (streetStep spare po co ao) t0 ss = Inr t1"
    and ok: "tables_ok spare po co ao t0" and s: "s \<in> set ss"
  shows "\<exists>tr tr'. tables_ok spare po co ao tr \<and>
     streetStep spare po co ao tr s = Inr tr' \<and> extends tr' t1"
proof (rule loop_visits [where body = "streetStep spare po co ao" and xs = ss
      and I = "tables_ok spare po co ao" and R = extends])
  show "tables_ok spare po co ao s' \<and> extends s s'"
    if "tables_ok spare po co ao s" "streetStep spare po co ao s x = Inr s'" for s x s'
    using streetStep_keeps that by blast
  show "extends s s" for s by (rule extends_refl)
  show "extends a c" if "extends a b" "extends b c" for a b c
    using that by (rule extends_trans)
  show "loop (streetStep spare po co ao) t0 ss = Inr t1" by (rule run)
  show "tables_ok spare po co ao t0" by (rule ok)
  show "s \<in> set ss" by (rule s)
qed

lemma street_fail:
  assumes run: "loop (streetStep spare po co ao) t0 ss = Inl e"
    and ok: "tables_ok spare po co ao t0"
  shows "\<exists>tr s. tables_ok spare po co ao tr \<and> s \<in> set ss \<and>
     streetStep spare po co ao tr s = Inl e"
proof (rule loop_fails [where body = "streetStep spare po co ao" and xs = ss
      and I = "tables_ok spare po co ao"])
  show "tables_ok spare po co ao s'"
    if "tables_ok spare po co ao s" "streetStep spare po co ao s x = Inr s'" for s x s'
    using streetStep_keeps that by blast
  show "loop (streetStep spare po co ao) t0 ss = Inl e" by (rule run)
  show "tables_ok spare po co ao t0" by (rule ok)
qed

lemma tables_start:
  "tables_ok spare (provinceTable ps) Map.empty Map.empty
     (map (\<lambda>p. newArea (flat_Code p) (flat_Name p) ''0'') ps)"
  by (simp add: tables_ok_def province_phase(2) city_table_ok_def area_table_ok_def)

lemma buildTrees_tables:
  assumes "buildTrees spare ps cs as ss = Inr ts"
  obtains t1 co t2 ao where
    "loop (cityStep spare (provinceTable ps))
       (map (\<lambda>p. newArea (flat_Code p) (flat_Name p) ''0'') ps, Map.empty) cs = Inr (t1, co)"
    "loop (areaStep spare (provinceTable ps) co) (t1, Map.empty) as = Inr (t2, ao)"
    "loop (streetStep spare (provinceTable ps) co ao) t2 ss = Inr ts"
    "co = cityTable spare ps cs" "dom co = flat_Code ` set cs" "dom ao = flat_Code ` set as"
    "tables_ok spare (provinceTable ps) co Map.empty t1"
    "tables_ok spare (provinceTable ps) co ao t2"
    "tables_ok spare (provinceTable ps) co ao ts"
    "extends t1 t2" "extends t2 ts"
proof -
  let ?t0 = "map (\<lambda>p. newArea (flat_Code p) (flat_Name p) ''0'') ps"
  let ?po = "provinceTable ps"
  from assms obtain t1 co t2 ao where
    c: "loop (cityStep spare ?po) (?t0, Map.empty) cs = Inr (t1, co)"
    and a: "loop (areaStep spare ?po co) (t1, Map.empty) as = Inr (t2, ao)"
    and s: "loop (streetStep spare ?po co ao) t2 ss = Inr ts"
    by (auto simp: buildTrees_unfold split: sum.splits prod.splits)
  note c1 = city_phase [OF c tables_start]
  from c1(1) have ok1: "tables_ok spare ?po co Map.empty t1" by simp
  note a1 = area_phase [OF a ok1]
  from a1(1) have ok2: "tables_ok spare ?po co ao t2" and e12: "extends t1 t2" by simp_all
  note s1 = street_phase [OF s ok2]
  from s1 have ok3: "tables_ok spare ?po co ao ts" and e23: "extends t2 ts" by simp_all
  from c1(2) a1(2) have "dom co = flat_Code ` set cs" "dom ao = flat_Code ` set as" by simp_all
  with that [OF c a s cityTable_run [OF c, symmetric]] ok1 ok2 ok3 e12 e23 show thesis
    by blast
qed

lemma missing_None:
  "parent_missing resolver parents x \<Longrightarrow> dom m = flat_Code ` set parents \<Longrightarrow>
     \<exists>parent. resolver (flat_Code x) = Inr parent \<and> m parent = None"
  unfolding parent_missing_def by (metis domIff)

lemma None_missing:
  "resolver (flat_Code x) = Inr parent \<Longrightarrow> m parent = None \<Longrightarrow>
   dom m = flat_Code ` set parents \<Longrightarrow> parent_missing resolver parents x"
  unfolding parent_missing_def by (metis domIff)

text \<open>What stops \<open>buildTrees\<close>.\<close>

lemma buildTrees_stops:
  assumes "buildTrees spare ps cs as ss = Inl e"
  shows "(\<exists>n k. e = SliceBounds n k \<and> k < n) \<or>
     (e = IndexRange 0 0 \<and>
      ((\<exists>c \<in> set cs. parent_missing (getProvince spare) ps c) \<or>
       (\<exists>a \<in> set as. parent_missing (getCity spare) cs a) \<or>
       (\<exists>s \<in> set ss. parent_missing (getArea spare) as s)))"
proof -
  let ?t0 = "map (\<lambda>p. newArea (flat_Code p) (flat_Name p) ''0'') ps"
  let ?po = "provinceTable ps"
  show ?thesis
  proof (cases "loop (cityStep spare ?po) (?t0, Map.empty) cs")
    case (Inl e1)
    with assms have "e1 = e" by (simp add: buildTrees_unfold)
    with city_fail [OF Inl tables_start] obtain tr co1 c where
      ok: "tables_ok spare ?po co1 Map.empty tr" and c: "c \<in> set cs"
      and f: "cityStep spare ?po (tr, co1) c = Inl e" by blast
    from cityStep_stops [OF f ok] c show ?thesis
      by (blast intro: None_missing [OF _ _ province_phase(3)])
  next
    case c: (Inr st1)
    obtain t1 co where st1: "st1 = (t1, co)" by (cases st1)
    note c1 = city_phase [OF c [unfolded st1] tables_start]
    from c1(1) have ok1: "tables_ok spare ?po co Map.empty t1" by simp
    from c1(2) have dco: "dom co = flat_Code ` set cs" by simp
    show ?thesis
    proof (cases "loop (areaStep spare ?po co) (t1, Map.empty) as")
      case (Inl e2)
      with assms c st1 have "e2 = e" by (simp add: buildTrees_unfold)
      with area_fail [OF Inl ok1] obtain tr ao1 a where
        ok: "tables_ok spare ?po co ao1 tr" and a: "a \<in> set as"
        and f: "areaStep spare ?po co (tr, ao1) a = Inl e" by blast
      from areaStep_stops [OF f ok] a show ?thesis
        by (blast intro: None_missing [OF _ _ dco])
    next
      case a: (Inr st2)
      obtain t2 ao where st2: "st2 = (t2, ao)" by (cases st2)
      note a1 = area_phase [OF a [unfolded st2] ok1]
      from a1(1) have ok2: "tables_ok spare ?po co ao t2" by simp
      from a1(2) have dao: "dom ao = flat_Code ` set as" by simp
      from assms c st1 a st2 have "loop (streetStep spare ?po co ao) t2 ss = Inl e"
        by (simp add: buildTrees_unfold)
      from street_fail [OF this ok2] obtain tr s where
        ok: "tables_ok spare ?po co ao tr" and s: "s \<in> set ss"
        and f: "streetStep spare ?po co ao tr s = Inl e" by blast
      from streetStep_stops [OF f ok] s show ?thesis
        by (blast intro: None_missing [OF _ _ dao])
    qed
  qed
qed

text \<open>What an extension keeps under a node.\<close>

lemma extends_keeps1:
  assumes "extends tr ts" "i < length tr" "x \<in> set (children_fields (tr ! i))"
  shows "i < length ts \<and> x \<in> set (children_fields (ts ! i))"
proof -
  from assms(1,2) have "prefix (children_fields (tr ! i)) (children_fields (ts ! i))"
    and "length ts = length tr"
    by (simp_all add: extends_def ext1_def)
  with assms(2,3) show ?thesis by (auto dest: set_mono_prefix)
qed

lemma extends_keeps2:
  assumes "extends tr ts" "i < length tr" "j < length (SubAreas (tr ! i))"
    "x \<in> set (children_fields (SubAreas (tr ! i) ! j))"
  shows "i < length ts \<and> j < length (SubAreas (ts ! i)) \<and>
     x \<in> set (children_fields (SubAreas (ts ! i) ! j))"
proof -
  from assms(1,2) have len: "length ts = length tr" and e1: "ext1 (tr ! i) (ts ! i)"
    by (simp_all add: extends_def)
  from e1 have "length (SubAreas (tr ! i)) \<le> length (SubAreas (ts ! i))"
    by (simp add: ext1_def prefix_kids_length)
  moreover from e1 assms(3)
  have "prefix (children_fields (SubAreas (tr ! i) ! j)) (children_fields (SubAreas (ts ! i) ! j))"
    by (simp add: ext1_def ext2_def)
  ultimately show ?thesis using assms(2,3,4) len by (auto dest: set_mono_prefix)
qed

lemma extends_keeps3:
  assumes "extends tr ts" "i < length tr" "j < length (SubAreas (tr ! i))"
    "h < length (SubAreas (SubAreas (tr ! i) ! j))"
    "x \<in> set (children_fields (SubAreas (SubAreas (tr ! i) ! j) ! h))"
  shows "i < length ts \<and> j < length (SubAreas (ts ! i)) \<and>
     h < length (SubAreas (SubAreas (ts ! i) ! j)) \<and>
     x \<in> set (children_fields (SubAreas (SubAreas (ts ! i) ! j) ! h))"
proof -
  from assms(1,2) have len: "length ts = length tr" and e1: "ext1 (tr ! i) (ts ! i)"
    by (simp_all add: extends_def)
  from e1 have l1: "length (SubAreas (tr ! i)) \<le> length (SubAreas (ts ! i))"
    by (simp add: ext1_def prefix_kids_length)
  from e1 assms(3) have e2: "ext2 (SubAreas (tr ! i) ! j) (SubAreas (ts ! i) ! j)"
    by (simp add: ext1_def)
  then have l2: "length (SubAreas (SubAreas (tr ! i) ! j)) \<le>
      length (SubAreas (SubAreas (ts ! i) ! j))"
    by (simp add: ext2_def prefix_kids_length)
  from e2 assms(4)
  have "prefix (children_fields (SubAreas (SubAreas (tr ! i) ! j) ! h))
      (children_fields (SubAreas (SubAreas (ts ! i) ! j) ! h))"
    by (simp add: ext2_def ext3_def)
  with l1 l2 show ?thesis using assms(2,3,4,5) len by (auto dest: set_mono_prefix)
qed

text \<open>Where a record with a missing parent stands in the forest that is returned.\<close>

lemma city_adopted:
  assumes b: "buildTrees spare ps cs as ss = Inr ts" and c: "c \<in> set cs"
    and m: "parent_missing (getProvince spare) ps c"
  shows "ts \<noteq> [] \<and> flat_fields c \<in> set (children_fields (ts ! 0))"
proof -
  let ?t0 = "map (\<lambda>p. newArea (flat_Code p) (flat_Name p) ''0'') ps"
  let ?po = "provinceTable ps"
  let ?new = "newArea (flat_Code c) (flat_Name c) (flat_ParentCode c)"
  from b obtain t1 co t2 ao where
    run: "loop (cityStep spare ?po) (?t0, Map.empty) cs = Inr (t1, co)"
    and e12: "extends t1 t2" and e23: "extends t2 ts"
    by (rule buildTrees_tables)
  from city_visit [OF run tables_start c] obtain tr co1 tr' co1' where
    step: "cityStep spare ?po (tr, co1) c = Inr (tr', co1')" and e: "extends tr' t1"
    by blast
  from missing_None [OF m province_phase(3)] obtain pc where
    g: "getProvince spare (flat_Code c) = Inr pc" and n: "?po pc = None" by blast
  from step have tr: "tr \<noteq> []" and tr': "tr' = add_city ?new tr 0"
    by (simp_all add: cityStep_missing [where po = ?po, OF g n] split: if_splits)
  from tr have "flat_fields c \<in> set (children_fields (tr' ! 0))"
    by (simp add: tr' children_fields_def add_city_at flat_fields_def)
  moreover from tr have "0 < length tr'" by (simp add: tr')
  moreover have "extends tr' ts" by (rule extends_trans [OF e extends_trans [OF e12 e23]])
  ultimately show ?thesis using extends_keeps1 [of tr' ts 0 "flat_fields c"] by auto
qed

lemma area_adopted:
  assumes b: "buildTrees spare ps cs as ss = Inr ts" and a: "a \<in> set as"
    and gp: "getProvince spare (flat_Code a) = Inr pc"
    and m: "parent_missing (getCity spare) cs a"
  shows "lookup (provinceTable ps) pc < length ts \<and>
     SubAreas (ts ! lookup (provinceTable ps) pc) \<noteq> [] \<and>
     flat_fields a \<in> set (children_fields (SubAreas (ts ! lookup (provinceTable ps) pc) ! 0))"
proof -
  let ?po = "provinceTable ps"
  let ?i = "lookup ?po pc"
  let ?new = "newArea (flat_Code a) (flat_Name a) (flat_ParentCode a)"
  from b obtain t1 co t2 ao where
    run: "loop (areaStep spare ?po co) (t1, Map.empty) as = Inr (t2, ao)"
    and dco: "dom co = flat_Code ` set cs"
    and ok1: "tables_ok spare ?po co Map.empty t1"
    and e23: "extends t2 ts"
    by (rule buildTrees_tables)
  from area_visit [OF run ok1 a] obtain tr ao1 tr' ao1' where
    ok: "tables_ok spare ?po co ao1 tr"
    and step: "areaStep spare ?po co (tr, ao1) a = Inr (tr', ao1')" and e: "extends tr' t2"
    by blast
  from missing_None [OF m dco] obtain cc where
    g: "getCity spare (flat_Code a) = Inr cc" and n: "co cc = None" by blast
  from ok have pok: "province_table_ok ?po tr" by (simp add: tables_ok_def)
  from step have tr: "tr \<noteq> []" and sub: "SubAreas (tr ! ?i) \<noteq> []"
    and tr': "tr' = add_area ?new tr ?i 0"
    by (simp_all add: areaStep_missing [where po = ?po and co = co, OF gp g n pok]
        split: if_splits)
  from tr province_lookup(1) [OF pok, of pc] have i: "?i < length tr" by simp
  from sub have j: "0 < length (SubAreas (tr ! ?i))" by simp
  from add_area_at [OF i j, of ?new]
  have "0 < length (SubAreas (tr' ! ?i))"
    and "flat_fields a \<in> set (children_fields (SubAreas (tr' ! ?i) ! 0))"
    using j by (simp_all add: tr' children_fields_def flat_fields_def)
  moreover from i have "?i < length tr'" by (simp add: tr')
  moreover have "extends tr' ts" by (rule extends_trans [OF e e23])
  ultimately show ?thesis using extends_keeps2 [of tr' ts ?i 0 "flat_fields a"] by auto
qed

lemma street_adopted:
  assumes b: "buildTrees spare ps cs as ss = Inr ts" and s: "s \<in> set ss"
    and gp: "getProvince spare (flat_Code s) = Inr pc"
    and gc: "getCity spare (flat_Code s) = Inr cc"
    and m: "parent_missing (getArea spare) as s"
  shows "lookup (provinceTable ps) pc < length ts \<and>
     lookup (cityTable spare ps cs) cc < length (SubAreas (ts ! lookup (provinceTable ps) pc)) \<and>
     SubAreas (SubAreas (ts ! lookup (provinceTable ps) pc) ! lookup (cityTable spare ps cs) cc)
       \<noteq> [] \<and>
     flat_fields s \<in> set (children_fields
       (SubAreas (SubAreas (ts ! lookup (provinceTable ps) pc) !
          lookup (cityTable spare ps cs) cc) ! 0))"
proof -
  let ?po = "provinceTable ps"
  let ?i = "lookup ?po pc"
  let ?new = "newArea (flat_Code s) (flat_Name s) (flat_ParentCode s)"
  from b obtain t1 co t2 ao where
    run: "loop (streetStep spare ?po co ao) t2 ss = Inr ts"
    and co: "co = cityTable spare ps cs"
    and dao: "dom ao = flat_Code ` set as"
    and ok2: "tables_ok spare ?po co ao t2"
    by (rule buildTrees_tables)
  let ?j = "lookup co cc"
  from street_visit [OF run ok2 s] obtain tr tr' where
    ok: "tables_ok spare ?po co ao tr"
    and step: "streetStep spare ?po co ao tr s = Inr tr'" and e: "extends tr' ts"
    by blast
  from missing_None [OF m dao] obtain ac where
    g: "getArea spare (flat_Code s) = Inr ac" and n: "ao ac = None" by blast
  from ok have pok: "province_table_ok ?po tr" and cok: "city_table_ok spare ?po co tr"
    by (simp_all add: tables_ok_def)
  from step have tr: "tr \<noteq> []" and sub: "SubAreas (tr ! ?i) \<noteq> []"
    and sub2: "SubAreas (SubAreas (tr ! ?i) ! ?j) \<noteq> []"
    and tr': "tr' = add_street ?new tr ?i ?j 0"
    by (simp_all add: streetStep_missing [where po = ?po and co = co and ao = ao,
          OF gp gc g n pok cok] split: if_splits)
  from tr province_lookup(1) [OF pok, of pc] have i: "?i < length tr" by simp
  from sub city_lookup(1) [OF cok gp gc] have j: "?j < length (SubAreas (tr ! ?i))" by simp
  from sub2 have h: "0 < length (SubAreas (SubAreas (tr ! ?i) ! ?j))" by simp
  from add_street_at [OF i j h, of ?new]
  have "?j < length (SubAreas (tr' ! ?i))"
    and "0 < length (SubAreas (SubAreas (tr' ! ?i) ! ?j))"
    and "flat_fields s \<in> set (children_fields (SubAreas (SubAreas (tr' ! ?i) ! ?j) ! 0))"
    using j h by (simp_all add: tr' children_fields_def flat_fields_def)
  moreover from i have "?i < length tr'" by (simp add: tr')
  ultimately show ?thesis
    using extends_keeps3 [OF e, of ?i ?j 0 "flat_fields s"] unfolding co by auto
qed

text \<open>The build whose last record has a missing parent.\<close>

lemma city_last:
  assumes b: "buildTrees spare ps cs [] [] = Inr ts"
    and m: "parent_missing (getProvince spare) ps c"
  shows "buildTrees spare ps (cs @ [c]) [] [] =
     (if ts = [] then Inl (IndexRange 0 0)
      else Inr (add_city (newArea (flat_Code c) (flat_Name c) (flat_ParentCode c)) ts 0))"
proof -
  let ?t0 = "map (\<lambda>p. newArea (flat_Code p) (flat_Name p) ''0'') ps"
  let ?po = "provinceTable ps"
  from b obtain t1 co t2 ao where
    c: "loop (cityStep spare ?po) (?t0, Map.empty) cs = Inr (t1, co)"
    and a: "loop (areaStep spare ?po co) (t1, Map.empty) [] = Inr (t2, ao)"
    and s: "loop (streetStep spare ?po co ao) t2 [] = Inr ts"
    by (rule buildTrees_tables)
  from a s have t: "t1 = ts" by simp
  from missing_None [OF m province_phase(3)] obtain pc where
    g: "getProvince spare (flat_Code c) = Inr pc" and n: "?po pc = None" by blast
  show ?thesis
    by (simp add: buildTrees_unfold loop_snoc c t cityStep_missing [where po = ?po, OF g n])
qed

lemma area_last:
  assumes b: "buildTrees spare ps cs as [] = Inr ts"
    and gp: "getProvince spare (flat_Code a) = Inr pc"
    and m: "parent_missing (getCity spare) cs a"
  shows "buildTrees spare ps cs (as @ [a]) [] =
     (if ts = [] \<or> SubAreas (ts ! lookup (provinceTable ps) pc) = [] then Inl (IndexRange 0 0)
      else Inr (add_area (newArea (flat_Code a) (flat_Name a) (flat_ParentCode a)) ts
                  (lookup (provinceTable ps) pc) 0))"
proof -
  let ?t0 = "map (\<lambda>p. newArea (flat_Code p) (flat_Name p) ''0'') ps"
  let ?po = "provinceTable ps"
  from b obtain t1 co t2 ao where
    c: "loop (cityStep spare ?po) (?t0, Map.empty) cs = Inr (t1, co)"
    and a: "loop (areaStep spare ?po co) (t1, Map.empty) as = Inr (t2, ao)"
    and s: "loop (streetStep spare ?po co ao) t2 [] = Inr ts"
    and dco: "dom co = flat_Code ` set cs"
    and ok2: "tables_ok spare ?po co ao t2"
    by (rule buildTrees_tables)
  from s have t: "t2 = ts" by simp
  from ok2 have pok: "province_table_ok ?po ts" by (simp add: tables_ok_def t)
  from missing_None [OF m dco] obtain cc where
    g: "getCity spare (flat_Code a) = Inr cc" and n: "co cc = None" by blast
  show ?thesis
    by (simp add: buildTrees_unfold loop_snoc c a t
        areaStep_missing [where po = ?po and co = co, OF gp g n pok])
qed

lemma street_last:
  assumes b: "buildTrees spare ps cs as ss = Inr ts"
    and gp: "getProvince spare (flat_Code s) = Inr pc"
    and gc: "getCity spare (flat_Code s) = Inr cc"
    and m: "parent_missing (getArea spare) as s"
  shows "buildTrees spare ps cs as (ss @ [s]) =
     (if ts = [] \<or> SubAreas (ts ! lookup (provinceTable ps) pc) = [] \<or>
         SubAreas (SubAreas (ts ! lookup (provinceTable ps) pc) !
           lookup (cityTable spare ps cs) cc) = []
      then Inl (IndexRange 0 0)
      else Inr (add_street (newArea (flat_Code s) (flat_Name s) (flat_ParentCode s)) ts
                  (lookup (provinceTable ps) pc) (lookup (cityTable spare ps cs) cc) 0))"
proof -
  let ?t0 = "map (\<lambda>p. newArea (flat_Code p) (flat_Name p) ''0'') ps"
  let ?po = "provinceTable ps"
  from b obtain t1 co t2 ao where
    c: "loop (cityStep spare ?po) (?t0, Map.empty) cs = Inr (t1, co)"
    and a: "loop (areaStep spare ?po co) (t1, Map.empty) as = Inr (t2, ao)"
    and s: "loop (streetStep spare ?po co ao) t2 ss = Inr ts"
    and co: "co = cityTable spare ps cs"
    and dao: "dom ao = flat_Code ` set as"
    and ok3: "tables_ok spare ?po co ao ts"
    by (rule buildTrees_tables)
  from ok3 have pok: "province_table_ok ?po ts" and cok: "city_table_ok spare ?po co ts"
    by (simp_all add: tables_ok_def)
  from missing_None [OF m dao] obtain ac where
    g: "getArea spare (flat_Code s) = Inr ac" and n: "ao ac = None" by blast
  show ?thesis
    by (simp add: buildTrees_unfold loop_snoc c a s co [symmetric]
        streetStep_missing [where po = ?po and co = co and ao = ao, OF gp gc g n pok cok])
qed

text \<open>
  Claim C3, amended to what the code does. A missing key of a lookup table reads as
  position 0, so a record whose resolved parent code is the code of no record of the level
  above does not stop \<open>buildTrees\<close> by itself.

  First, \<open>buildTrees\<close> stops only with a slice bound beyond the capacity, or with index 0
  beyond length 0, and with the latter only when some record has a missing parent; neither
  value names a code.

  Second, in every forest that \<open>buildTrees\<close> returns, a city whose province is missing
  stands among the children of the first root; an area whose city is missing stands among
  the children of the first city of the root that the province table gives for its province
  code (the first root when that code is missing too); a street whose area is missing
  stands among the children of the first area of the city that the two tables give for its
  province and city codes.

  Third, when such a record comes last (the lists of the deeper levels being empty), the
  build with it is the build without it with the record appended there; it stops, with
  index 0 beyond length 0, exactly when there is no node at that place.
\<close>

theorem missing_parent_goes_to_position_0:
  "(buildTrees spare provinces cities areas streets = Inl e \<longrightarrow>
      (\<exists>n k. e = SliceBounds n k \<and> k < n) \<or>
      (e = IndexRange 0 0 \<and>
       ((\<exists>x \<in> set cities. parent_missing (getProvince spare) provinces x) \<or>
        (\<exists>x \<in> set areas. parent_missing (getCity spare) cities x) \<or>
        (\<exists>x \<in> set streets. parent_missing (getArea spare) areas x)))) \<and>
   (buildTrees spare provinces cities areas streets = Inr trees \<longrightarrow>
      (c \<in> set cities \<and> parent_missing (getProvince spare) provinces c \<longrightarrow>
         trees \<noteq> [] \<and> flat_fields c \<in> set (children_fields (trees ! 0))) \<and>
      (a \<in> set areas \<and> getProvince spare (flat_Code a) = Inr pCode \<and>
       parent_missing (getCity spare) cities a \<longrightarrow>
         (let i = lookup (provinceTable provinces) pCode in
          i < length trees \<and> SubAreas (trees ! i) \<noteq> [] \<and>
          flat_fields a \<in> set (children_fields (SubAreas (trees ! i) ! 0)))) \<and>
      (s \<in> set streets \<and> getProvince spare (flat_Code s) = Inr pCode' \<and>
       getCity spare (flat_Code s) = Inr cCode \<and> parent_missing (getArea spare) areas s \<longrightarrow>
         (let i = lookup (provinceTable provinces) pCode';
              j = lookup (cityTable spare provinces cities) cCode in
          i < length trees \<and> j < length (SubAreas (trees ! i)) \<and>
          SubAreas (SubAreas (trees ! i) ! j) \<noteq> [] \<and>
          flat_fields s \<in> set (children_fields (SubAreas (SubAreas (trees ! i) ! j) ! 0))))) \<and>
   (buildTrees spare provinces cities [] [] = Inr trees1 \<and>
    parent_missing (getProvince spare) provinces c1 \<longrightarrow>
      buildTrees spare provinces (cities @ [c1]) [] [] =
        (if trees1 = [] then Inl (IndexRange 0 0)
         else Inr (add_city (newArea (flat_Code c1) (flat_Name c1) (flat_ParentCode c1))
                     trees1 0))) \<and>
   (buildTrees spare provinces cities areas [] = Inr trees2 \<and>
    getProvince spare (flat_Code a2) = Inr pCode2 \<and>
    parent_missing (getCity spare) cities a2 \<longrightarrow>
      buildTrees spare provinces cities (areas @ [a2]) [] =
        (let i = lookup (provinceTable provinces) pCode2 in
         if trees2 = [] \<or> SubAreas (trees2 ! i) = [] then Inl (IndexRange 0 0)
         else Inr (add_area (newArea (flat_Code a2) (flat_Name a2) (flat_ParentCode a2))
                     trees2 i 0))) \<and>
   (buildTrees spare provinces cities areas streets = Inr trees3 \<and>
    getProvince spare (flat_Code s3) = Inr pCode3 \<and>
    getCity spare (flat_Code s3) = Inr cCode3 \<and>
    parent_missing (getArea spare) areas s3 \<longrightarrow>
      buildTrees spare provinces cities areas (streets @ [s3]) =
        (let i = lookup (provinceTable provinces) pCode3;
             j = lookup (cityTable spare provinces cities) cCode3 in
         if trees3 = [] \<or> SubAreas (trees3 ! i) = [] \<or> SubAreas (SubAreas (trees3 ! i) ! j) = []
         then Inl (IndexRange 0 0)
         else Inr (add_street (newArea (flat_Code s3) (flat_Name s3) (flat_ParentCode s3))
                     trees3 i j 0)))"
proof -
  have stops: "buildTrees spare provinces cities areas streets = Inl e \<longrightarrow>
      (\<exists>n k. e = SliceBounds n k \<and> k < n) \<or>
      (e = IndexRange 0 0 \<and>
       ((\<exists>x \<in> set cities. parent_missing (getProvince spare) provinces x) \<or>
        (\<exists>x \<in> set areas. parent_missing (getCity spare) cities x) \<or>
        (\<exists>x \<in> set streets. parent_missing (getArea spare) areas x)))"
    using buildTrees_stops by blast
  have adopted: "buildTrees spare provinces cities areas streets = Inr trees \<longrightarrow>
      (c \<in> set cities \<and> parent_missing (getProvince spare) provinces c \<longrightarrow>
         trees \<noteq> [] \<and> flat_fields c \<in> set (children_fields (trees ! 0))) \<and>
      (a \<in> set areas \<and> getProvince spare (flat_Code a) = Inr pCode \<and>
       parent_missing (getCity spare) cities a \<longrightarrow>
         (let i = lookup (provinceTable provinces) pCode in
          i < length trees \<and> SubAreas (trees ! i) \<noteq> [] \<and>
          flat_fields a \<in> set (children_fields (SubAreas (trees ! i) ! 0)))) \<and>
      (s \<in> set streets \<and> getProvince spare (flat_Code s) = Inr pCode' \<and>
       getCity spare (flat_Code s) = Inr cCode \<and> parent_missing (getArea spare) areas s \<longrightarrow>
         (let i = lookup (provinceTable provinces) pCode';
              j = lookup (cityTable spare provinces cities) cCode in
          i < length trees \<and> j < length (SubAreas (trees ! i)) \<and>
          SubAreas (SubAreas (trees ! i) ! j) \<noteq> [] \<and>
          flat_fields s \<in> set (children_fields (SubAreas (SubAreas (trees ! i) ! j) ! 0))))"
  proof
    assume b: "buildTrees spare provinces cities areas streets = Inr trees"
    have "trees \<noteq> [] \<and> flat_fields c \<in> set (children_fields (trees ! 0))"
      if "c \<in> set cities \<and> parent_missing (getProvince spare) provinces c"
      using city_adopted [OF b] that by blast
    moreover have "let i = lookup (provinceTable provinces) pCode in
          i < length trees \<and> SubAreas (trees ! i) \<noteq> [] \<and>
          flat_fields a \<in> set (children_fields (SubAreas (trees ! i) ! 0))"
      if "a \<in> set areas \<and> getProvince spare (flat_Code a) = Inr pCode \<and>
          parent_missing (getCity spare) cities a"
      using area_adopted [OF b, of a pCode] that by (simp add: Let_def)
    moreover have "let i = lookup (provinceTable provinces) pCode';
              j = lookup (cityTable spare provinces cities) cCode in
          i < length trees \<and> j < length (SubAreas (trees ! i)) \<and>
          SubAreas (SubAreas (trees ! i) ! j) \<noteq> [] \<and>
          flat_fields s \<in> set (children_fields (SubAreas (SubAreas (trees ! i) ! j) ! 0))"
      if "s \<in> set streets \<and> getProvince spare (flat_Code s) = Inr pCode' \<and>
          getCity spare (flat_Code s) = Inr cCode \<and> parent_missing (getArea spare) areas s"
      using street_adopted [OF b, of s pCode' cCode] that by (simp add: Let_def)
    ultimately show "(c \<in> set cities \<and> parent_missing (getProvince spare) provinces c \<longrightarrow>
         trees \<noteq> [] \<and> flat_fields c \<in> set (children_fields (trees ! 0))) \<and>
      (a \<in> set areas \<and> getProvince spare (flat_Code a) = Inr pCode \<and>
       parent_missing (getCity spare) cities a \<longrightarrow>
         (let i = lookup (provinceTable provinces) pCode in
          i < length trees \<and> SubAreas (trees ! i) \<noteq> [] \<and>
          flat_fields a \<in> set (children_fields (SubAreas (trees ! i) ! 0)))) \<and>
      (s \<in> set streets \<and> getProvince spare (flat_Code s) = Inr pCode' \<and>
       getCity spare (flat_Code s) = Inr cCode \<and> parent_missing (getArea spare) areas s \<longrightarrow>
         (let i = lookup (provinceTable provinces) pCode';
              j = lookup (cityTable spare provinces cities) cCode in
          i < length trees \<and> j < length (SubAreas (trees ! i)) \<and>
          SubAreas (SubAreas (trees ! i) ! j) \<noteq> [] \<and>
          flat_fields s \<in> set (children_fields (SubAreas (SubAreas (trees ! i) ! j) ! 0))))"
      by blast
  qed
  have last1: "buildTrees spare provinces cities [] [] = Inr trees1 \<and>
    parent_missing (getProvince spare) provinces c1 \<longrightarrow>
      buildTrees spare provinces (cities @ [c1]) [] [] =
        (if trees1 = [] then Inl (IndexRange 0 0)
         else Inr (add_city (newArea (flat_Code c1) (flat_Name c1) (flat_ParentCode c1))
                     trees1 0))"
    using city_last by blast
  have last2: "buildTrees spare provinces cities areas [] = Inr trees2 \<and>
    getProvince spare (flat_Code a2) = Inr pCode2 \<and>
    parent_missing (getCity spare) cities a2 \<longrightarrow>
      buildTrees spare provinces cities (areas @ [a2]) [] =
        (let i = lookup (provinceTable provinces) pCode2 in
         if trees2 = [] \<or> SubAreas (trees2 ! i) = [] then Inl (IndexRange 0 0)
         else Inr (add_area (newArea (flat_Code a2) (flat_Name a2) (flat_ParentCode a2))
                     trees2 i 0))"
    using area_last [of spare provinces cities areas trees2 a2 pCode2] by (simp add: Let_def)
  have last3: "buildTrees spare provinces cities areas streets = Inr trees3 \<and>
    getProvince spare (flat_Code s3) = Inr pCode3 \<and>
    getCity spare (flat_Code s3) = Inr cCode3 \<and>
    parent_missing (getArea spare) areas s3 \<longrightarrow>
      buildTrees spare provinces cities areas (streets @ [s3]) =
        (let i = lookup (provinceTable provinces) pCode3;
             j = lookup (cityTable spare provinces cities) cCode3 in
         if trees3 = [] \<or> SubAreas (trees3 ! i) = [] \<or> SubAreas (SubAreas (trees3 ! i) ! j) = []
         then Inl (IndexRange 0 0)
         else Inr (add_street (newArea (flat_Code s3) (flat_Name s3) (flat_ParentCode s3))
                     trees3 i j 0))"
    using street_last [of spare provinces cities areas streets trees3 s3 pCode3 cCode3]
    by (simp add: Let_def)
  from stops adopted last1 last2 last3 show ?thesis by (intro conjI)
qed

theorem missing_parent_goes_to_position_0_witness:
  "buildTrees no_spare [] [] [] [] = Inr [] \<and>
   parent_missing (getProvince no_spare) [] orphan_city \<and>
   buildTrees no_spare [] [orphan_city] [] [] = Inl (IndexRange 0 0) \<and>
   parent_missing (getProvince no_spare) one_province orphan_city \<and>
   parent_missing (getCity no_spare) [orphan_city] orphan_area \<and>
   parent_missing (getArea no_spare) [orphan_area] orphan_street \<and>
   buildTrees no_spare one_province [orphan_city] [] [] =
     Inr [Area ''110000'' ''A'' ''0'' 0 0 [Area ''120100'' ''B'' ''120000'' 0 0 []]] \<and>
   buildTrees no_spare one_province [orphan_city] [orphan_area] [] =
     Inr [Area ''110000'' ''A'' ''0'' 0 0
           [Area ''120100'' ''B'' ''120000'' 0 0 [Area ''130101'' ''C'' ''130100'' 0 0 []]]] \<and>
   buildTrees no_spare one_province [orphan_city] [orphan_area] [orphan_street] =
     Inr adopted_forest \<and>
   flat_fields orphan_city \<in> set (children_fields (adopted_forest ! 0)) \<and>
   flat_fields orphan_area \<in> set (children_fields (SubAreas (adopted_forest ! 0) ! 0)) \<and>
   flat_fields orphan_street \<in>
     set (children_fields (SubAreas (SubAreas (adopted_forest ! 0) ! 0) ! 0))"
proof -
  let ?A = "Area ''110000'' ''A'' ''0'' 0 0 []"
  let ?AB = "Area ''110000'' ''A'' ''0'' 0 0 [Area ''120100'' ''B'' ''120000'' 0 0 []]"
  let ?ABC = "Area ''110000'' ''A'' ''0'' 0 0
      [Area ''120100'' ''B'' ''120000'' 0 0 [Area ''130101'' ''C'' ''130100'' 0 0 []]]"
  have b0: "buildTrees no_spare [] [] [] [] = Inr []"
    by (simp add: buildTrees_def)
  have b1: "buildTrees no_spare one_province [] [] [] = Inr [?A]"
    by (simp add: buildTrees_def one_province_def newArea_def)
  have g: "getProvince no_spare (flat_Code orphan_city) = Inr ''120000''"
    "getProvince no_spare (flat_Code orphan_area) = Inr ''130000''"
    "getCity no_spare (flat_Code orphan_area) = Inr ''130100''"
    "getProvince no_spare (flat_Code orphan_street) = Inr ''140000''"
    "getCity no_spare (flat_Code orphan_street) = Inr ''140100''"
    "getArea no_spare (flat_Code orphan_street) = Inr ''140101''"
    by (simp_all add: getProvince_def getCity_def getArea_def slice_to_def copy_bytes_def
        no_spare_def orphan_city_def orphan_area_def orphan_street_def)
  have m0: "parent_missing (getProvince no_spare) [] orphan_city"
    and m1: "parent_missing (getProvince no_spare) one_province orphan_city"
    and m2: "parent_missing (getCity no_spare) [orphan_city] orphan_area"
    and m3: "parent_missing (getArea no_spare) [orphan_area] orphan_street"
    using g by (simp_all add: parent_missing_def one_province_def)
       (simp_all add: orphan_city_def orphan_area_def)
  have l: "lookup (provinceTable one_province) ''130000'' = 0"
    "lookup (provinceTable one_province) ''140000'' = 0"
    by (simp_all add: lookup_def provinceTable_def one_province_def)
  have lc: "lookup (cityTable no_spare one_province [orphan_city]) ''140100'' = 0"
    using g(1)
    by (simp add: lookup_def cityTable_def provinceTable_def one_province_def cityStep_def
        at_def Let_def newArea_def orphan_city_def)
  from missing_parent_goes_to_position_0 [where spare = no_spare and provinces = "[]"
      and cities = "[]" and ?trees1.0 = "[]" and ?c1.0 = orphan_city,
      THEN conjunct2, THEN conjunct2, THEN conjunct1] b0 m0
  have f: "buildTrees no_spare [] [orphan_city] [] [] = Inl (IndexRange 0 0)"
    by simp
  from missing_parent_goes_to_position_0 [where spare = no_spare
      and provinces = one_province and cities = "[]" and ?trees1.0 = "[?A]"
      and ?c1.0 = orphan_city, THEN conjunct2, THEN conjunct2, THEN conjunct1] b1 m1
  have c1: "buildTrees no_spare one_province [orphan_city] [] [] = Inr [?AB]"
    by (simp add: add_city_def appendSub_def newArea_def orphan_city_def)
  from missing_parent_goes_to_position_0 [where spare = no_spare
      and provinces = one_province and cities = "[orphan_city]" and areas = "[]"
      and ?trees2.0 = "[?AB]" and ?a2.0 = orphan_area and ?pCode2.0 = "''130000''",
      THEN conjunct2, THEN conjunct2, THEN conjunct2, THEN conjunct1] c1 g(2) m2 l(1)
  have c2: "buildTrees no_spare one_province [orphan_city] [orphan_area] [] = Inr [?ABC]"
    by (simp add: add_area_def appendSub_def setSubs_def newArea_def orphan_area_def)
  from missing_parent_goes_to_position_0 [where spare = no_spare
      and provinces = one_province and cities = "[orphan_city]" and areas = "[orphan_area]"
      and streets = "[]" and ?trees3.0 = "[?ABC]" and ?s3.0 = orphan_street
      and ?pCode3.0 = "''140000''" and ?cCode3.0 = "''140100''",
      THEN conjunct2, THEN conjunct2, THEN conjunct2, THEN conjunct2] c2 g(4,5) m3 l(2) lc
  have c3: "buildTrees no_spare one_province [orphan_city] [orphan_area] [orphan_street] =
      Inr adopted_forest"
    by (simp add: add_street_def appendSub_def setSubs_def newArea_def orphan_street_def
        adopted_forest_def)
  from missing_parent_goes_to_position_0 [where spare = no_spare
      and provinces = one_province and cities = "[orphan_city]" and areas = "[orphan_area]"
      and streets = "[orphan_street]" and trees = adopted_forest and c = orphan_city
      and a = orphan_area and s = orphan_street and pCode = "''130000''"
      and pCode' = "''140000''" and cCode = "''140100''", THEN conjunct2, THEN conjunct1]
    c3 g(2,4,5) m1 m2 m3 l lc
  have in_forest: "flat_fields orphan_city \<in> set (children_fields (adopted_forest ! 0)) \<and>
      flat_fields orphan_area \<in> set (children_fields (SubAreas (adopted_forest ! 0) ! 0)) \<and>
      flat_fields orphan_street \<in>
        set (children_fields (SubAreas (SubAreas (adopted_forest ! 0) ! 0) ! 0))"
    by (simp add: Let_def)
  from missing_parent_goes_to_position_0 [where spare = no_spare and provinces = "[]"
      and cities = "[orphan_city]" and areas = "[]" and streets = "[]"
      and e = "IndexRange 0 0", THEN conjunct1] f
  have stopped: "parent_missing (getProvince no_spare) [] orphan_city"
    by simp
  from b0 stopped f m1 m2 m3 c1 c2 c3 in_forest show ?thesis by simp
qed

text \<open>
  Claim C3 as stated fails: with the one province 110000 and the one city 120100, whose
  province 120000 is not in the input, \<open>buildTrees\<close> returns a forest, with the city under
  province 110000. The example of the specification is of this kind too: its city 1101
  resolves to the province code 110000, the code of its province is 11, and the forest of
  the example is built.
\<close>

theorem missing_parent_is_adopted:
  "getProvince no_spare ''120100'' = Inr ''120000'' \<and>
   ''120000'' \<notin> flat_Code `
      set [\<lparr>flat_Code = ''110000'', flat_Name = ''A'', flat_ParentCode = ''0''\<rparr>] \<and>
   buildTrees no_spare
     [\<lparr>flat_Code = ''110000'', flat_Name = ''A'', flat_ParentCode = ''0''\<rparr>]
     [\<lparr>flat_Code = ''120100'', flat_Name = ''B'', flat_ParentCode = ''120000''\<rparr>] [] [] =
     Inr [Area ''110000'' ''A'' ''0'' 0 0 [Area ''120100'' ''B'' ''120000'' 0 0 []]] \<and>
   getProvince no_spare (flat_Code example_city) = Inr ''110000'' \<and>
   ''110000'' \<notin> flat_Code ` set [example_province] \<and>
   buildTrees no_spare [example_province] [example_city] [example_area] [example_street] =
     Inr example_forest"
  by (simp add: build_defs no_spare_def example_defs example_forest_def)

end
